theory Spec2Isabelle
  imports Main "HOL-Library.Sublist"
begin

section \<open>The Discord adapter: values, store interface and adapter state\<close>

text \<open>
  The adapter mirrors servers, channels, members and users of a remote graph into a
  hierarchical object/state store and routes writes on command states back to the remote
  side. Two versions of the adapter class are verified: the compiled one (with the
  translated names, role based authorization and regular expression target resolution)
  and the TypeScript one. Functions whose text is the same in both are modelled once;
  where the versions differ, the TypeScript variant carries the suffix \<open>_ts\<close>.
\<close>

subsection \<open>JavaScript values\<close>

text \<open>
  Object definitions, JSON snapshots, state values and message options are JavaScript
  values. An object is the list of its properties in insertion order. Numbers are only
  compared and tested for zero here, so integers stand for them.
\<close>

datatype jsval =
    JUndefined
  | JNull
  | JBool bool
  | JNum int
  | JStr string
  | JArr "jsval list"
  | JObj "(string \<times> jsval) list"

text \<open>The truth value JavaScript gives a value in a condition (\<open>!v\<close>, \<open>a || b\<close>, \<open>a && b\<close>).\<close>

fun truthy :: "jsval \<Rightarrow> bool" where
  "truthy JUndefined = False"
| "truthy JNull = False"
| "truthy (JBool b) = b"
| "truthy (JNum n) = (n \<noteq> 0)"
| "truthy (JStr s) = (s \<noteq> [])"
| "truthy (JArr _) = True"
| "truthy (JObj _) = True"

text \<open>Property access \<open>o.k\<close>: a missing property, or a property of a non-object, reads as undefined.\<close>

fun getprop :: "jsval \<Rightarrow> string \<Rightarrow> jsval" where
  "getprop (JObj kvs) k = (case map_of kvs k of Some v \<Rightarrow> v | None \<Rightarrow> JUndefined)"
| "getprop _ k = JUndefined"

fun isArray :: "jsval \<Rightarrow> bool" where
  "isArray (JArr _) = True"
| "isArray _ = False"

text \<open>
  \<open>isDeepStrictEqual(cached, candidate)\<close> compares the cached value (undefined when the key
  is absent) with a candidate. Both sides for one key are built by the same object literal,
  so their properties come in the same order and deep equality is equality of the values.
\<close>

definition isDeepStrictEqual :: "jsval option \<Rightarrow> jsval \<Rightarrow> bool" where
  "isDeepStrictEqual cached candidate = (cached = Some candidate)"

subsection \<open>The underlying store and the adapter\<close>

text \<open>
  The store is an external collaborator. The calls that reach it are recorded, oldest
  first: \<open>extendObjectAsync(id, obj)\<close>, \<open>setStateAsync(id, val, ack)\<close> and
  \<open>delObjectAsync(id, {recursive})\<close>. Whether a call is rejected is decided by the
  environment.
\<close>

datatype store_call =
    ExtendObject string jsval
  | SetState string jsval bool
  | DelObject string bool

datatype 'a result = Returns 'a | Throws

record adapter =
  unloaded :: bool
  extendObjectCache :: "string \<rightharpoonup> jsval"
  jsonStateCache :: "string \<rightharpoonup> jsval"
  messageReceiveStates :: "string set"
  store_calls :: "store_call list"

text \<open>
  The adapter's surroundings: its namespace \<open>discord.<instance>\<close>, the presence option of
  its configuration, \<open>i18n.getStringOrTranslated\<close>, \<open>JSON.stringify\<close> and the store's
  verdict on each call.
\<close>

record env =
  namespace :: string
  observeUserPresence :: bool
  translate :: "string \<Rightarrow> string"
  stringify :: "jsval \<Rightarrow> string"
  store_rejects :: "store_call \<Rightarrow> bool"

definition call_store :: "env \<Rightarrow> store_call \<Rightarrow> adapter \<Rightarrow> unit result \<times> adapter" where
  "call_store e c a =
     (if store_rejects e c then Throws else Returns (),
      a\<lparr>store_calls := store_calls a @ [c]\<rparr>)"

subsection \<open>The definition cache\<close>

text \<open>
  \<open>extendObjectAsyncCached(id, objPart)\<close>: return at once when the cached definition is
  deeply equal; otherwise await the store write and only then set the cache entry. A
  rejected write throws before the cache is touched. The returned object is not used by
  any caller and is left out.
\<close>

definition extendObjectAsyncCached ::
  "env \<Rightarrow> string \<Rightarrow> jsval \<Rightarrow> adapter \<Rightarrow> unit result \<times> adapter" where
  "extendObjectAsyncCached e ident objPart a =
     (if isDeepStrictEqual (extendObjectCache a ident) objPart then (Returns (), a)
      else case call_store e (ExtendObject ident objPart) a of
             (Throws, a1) \<Rightarrow> (Throws, a1)
           | (Returns _, a1) \<Rightarrow>
               (Returns (), a1\<lparr>extendObjectCache := (extendObjectCache a1)(ident \<mapsto> objPart)\<rparr>))"

text \<open>
  \<open>delObjectAsyncCached(id, options)\<close>: with \<open>options.recursive\<close> every cache key that
  \<open>startsWith(id)\<close> is deleted, otherwise the key \<open>id\<close> alone; then the store delete is
  issued.
\<close>

definition delObjectAsyncCached ::
  "env \<Rightarrow> string \<Rightarrow> bool \<Rightarrow> adapter \<Rightarrow> unit result \<times> adapter" where
  "delObjectAsyncCached e ident recursive a =
     call_store e (DelObject ident recursive)
       (a\<lparr>extendObjectCache :=
            (if recursive then (\<lambda>id2. if prefix ident id2 then None else extendObjectCache a id2)
             else (extendObjectCache a)(ident := None))\<rparr>)"

subsection \<open>Authorization\<close>

text \<open>
  A grant is the triple of capability flags of a configuration entry. The configuration
  lists user grants by user id and role grants by \<open>serverAndRoleId\<close>, the string
  \<open><serverId>|<roleId>\<close>. The acting principal is a plain user or a guild member with the
  roles of its role cache; \<open>required\<close> is absent or names the capabilities asked for.
\<close>

record grant =
  getStates :: bool
  setStates :: bool
  useText2command :: bool

record auth_config =
  enableAuthorization :: bool
  authorizedUsers :: "(string \<times> grant) list"
  authorizedServerRoles :: "(string \<times> grant) list"

datatype principal =
    User string
  | GuildMember string string "string list"

fun principal_id :: "principal \<Rightarrow> string" where
  "principal_id (User uid) = uid"
| "principal_id (GuildMember uid _ _) = uid"

definition or_grant :: "grant \<Rightarrow> grant \<Rightarrow> grant" where
  "or_grant given roleGiven =
     \<lparr>getStates = getStates given \<or> getStates roleGiven,
      setStates = setStates given \<or> setStates roleGiven,
      useText2command = useText2command given \<or> useText2command roleGiven\<rparr>"

text \<open>One round of the loop over the member's roles: \<open>find\<close> yields the first entry for the key.\<close>

definition role_step :: "auth_config \<Rightarrow> string \<Rightarrow> grant option \<Rightarrow> string \<Rightarrow> grant option" where
  "role_step cfg guildId given roleId =
     (case find (\<lambda>ar. fst ar = guildId @ ''|'' @ roleId) (authorizedServerRoles cfg) of
        None \<Rightarrow> given
      | Some ar \<Rightarrow>
          (case given of
             None \<Rightarrow> Some (snd ar)
           | Some g \<Rightarrow> Some (or_grant g (snd ar))))"

definition checkUserAuthorization :: "auth_config \<Rightarrow> principal \<Rightarrow> grant option \<Rightarrow> bool" where
  "checkUserAuthorization cfg user required =
     (if \<not> enableAuthorization cfg then True
      else
        let given0 = map_option snd (find (\<lambda>au. fst au = principal_id user) (authorizedUsers cfg));
            given =
              (case user of
                 GuildMember _ guildId roles \<Rightarrow>
                   if length (authorizedServerRoles cfg) > 0
                   then foldl (role_step cfg guildId) given0 roles
                   else given0
               | User _ \<Rightarrow> given0)
        in case given of
             None \<Rightarrow> False
           | Some g \<Rightarrow>
               (case required of
                  None \<Rightarrow> True
                | Some r \<Rightarrow>
                    if getStates r \<and> \<not> getStates g \<or> setStates r \<and> \<not> setStates g
                       \<or> useText2command r \<and> \<not> useText2command g
                    then False else True))"

text \<open>
  The claimed policy, in the words of the specification: the user-level grant (or an
  all-false default) is OR-merged with every role grant that matches one of the
  principal's (server, role) pairs.
\<close>

definition all_false :: grant where
  "all_false = \<lparr>getStates = False, setStates = False, useText2command = False\<rparr>"

fun principal_pairs :: "principal \<Rightarrow> string list" where
  "principal_pairs (User _) = []"
| "principal_pairs (GuildMember _ guildId roles) = map (\<lambda>roleId. guildId @ ''|'' @ roleId) roles"

definition user_grant :: "auth_config \<Rightarrow> principal \<Rightarrow> grant option" where
  "user_grant cfg user = map_option snd (find (\<lambda>au. fst au = principal_id user) (authorizedUsers cfg))"

definition every_matching_role_grant :: "auth_config \<Rightarrow> principal \<Rightarrow> grant list" where
  "every_matching_role_grant cfg user =
     map snd (filter (\<lambda>ar. fst ar \<in> set (principal_pairs user)) (authorizedServerRoles cfg))"

text \<open>The role grants the loop reads: for each pair of the principal, the first entry listed for it.\<close>

definition first_role_grants :: "auth_config \<Rightarrow> principal \<Rightarrow> grant list" where
  "first_role_grants cfg user =
     List.map_filter (\<lambda>key. map_option snd (find (\<lambda>ar. fst ar = key) (authorizedServerRoles cfg)))
       (principal_pairs user)"

definition policy :: "bool \<Rightarrow> grant option \<Rightarrow> grant list \<Rightarrow> grant option \<Rightarrow> bool" where
  "policy enabled ug rgs required =
     (if \<not> enabled then True
      else if ug = None \<and> rgs = [] then False
      else
        (case required of
           None \<Rightarrow> True
         | Some r \<Rightarrow>
             (let merged = foldl or_grant (case ug of None \<Rightarrow> all_false | Some g \<Rightarrow> g) rgs
              in (getStates r \<longrightarrow> getStates merged) \<and> (setStates r \<longrightarrow> setStates merged)
                 \<and> (useText2command r \<longrightarrow> useText2command merged))))"


text \<open>Concrete inputs used to exercise the functions.\<close>

definition env0 :: env where
  "env0 = \<lparr>namespace = ''discord.0'', observeUserPresence = True,
           translate = (\<lambda>s. s), stringify = (\<lambda>j. ''json''), store_rejects = (\<lambda>c. False)\<rparr>"

definition adapter0 :: adapter where
  "adapter0 = \<lparr>unloaded = False, extendObjectCache = Map.empty, jsonStateCache = Map.empty,
               messageReceiveStates = {}, store_calls = []\<rparr>"

definition cfg_dup :: auth_config where
  "cfg_dup = \<lparr>enableAuthorization = True, authorizedUsers = [],
     authorizedServerRoles =
       [(''1|2'', \<lparr>getStates = False, setStates = False, useText2command = False\<rparr>),
        (''1|2'', \<lparr>getStates = True, setStates = False, useText2command = False\<rparr>)]\<rparr>"

definition want_get :: grant where
  "want_get = \<lparr>getStates = True, setStates = False, useText2command = False\<rparr>"

subsection \<open>Strings and identifiers\<close>

text \<open>
  \<open>s.split('.')\<close>: the segments between the dots. The identifier patterns of the adapter are
  words and digit runs joined by literal dots, so a regular expression such as
  \<open>^discord\.\d+\.users\.(\d+)\.(send|sendFile|sendReaction|sendReply)$\<close> matches exactly the
  strings whose segments are those words and digit runs. \<open>\d\<close> is an ASCII digit.
\<close>

fun split_dots :: "string \<Rightarrow> string list" where
  "split_dots [] = [[]]"
| "split_dots (c # cs) =
     (if c = CHR ''.'' then [] # split_dots cs
      else (case split_dots cs of
              [] \<Rightarrow> [[c]]
            | seg # segs \<Rightarrow> (c # seg) # segs))"

fun join_dots :: "string list \<Rightarrow> string" where
  "join_dots [] = []"
| "join_dots [seg] = seg"
| "join_dots (seg # segs) = seg @ ''.'' @ join_dots segs"

definition digits :: "string \<Rightarrow> bool" where
  "digits s = (s \<noteq> [] \<and> list_all (\<lambda>c. c \<in> set ''0123456789'') s)"

text \<open>\<open>s.indexOf(c)\<close>, with -1 when the character does not occur.\<close>

fun indexOf :: "string \<Rightarrow> char \<Rightarrow> int" where
  "indexOf [] c = -1"
| "indexOf (x # xs) c =
     (if x = c then 0 else (let i = indexOf xs c in if i < 0 then -1 else i + 1))"

subsection \<open>The remote client as seen by the command router\<close>

record channel_handle =
  chan_id :: string
  chan_isText :: bool
  chan_isThread :: bool

record user_handle =
  usr_id :: string
  usr_dmChannel :: "channel_handle option"

datatype target = TChannel channel_handle | TUser user_handle

text \<open>The entry of the TypeScript version's \<open>stateId2SendTargetInfo\<close> map.\<close>

record target_info =
  ti_guild :: bool
  ti_channel :: "channel_handle option"
  ti_user :: "user_handle option"

text \<open>
  Calls issued towards the remote side, oldest first: \<open>target.send(mo)\<close>,
  \<open>message.react(emoji)\<close>, \<open>user.createDM()\<close>, \<open>channel.messages.fetch(ref)\<close>, the voice
  actions and the bot presence update.
\<close>

datatype remote_call =
    Send target jsval
  | React string string
  | CreateDM string
  | FetchMessage string jsval
  | VoiceDisconnect string string
  | VoiceSetDeaf string string bool
  | VoiceSetMute string string bool
  | SetBotPresence string jsval

text \<open>
  The client caches and the outcomes of the external calls. \<open>json_parse\<close> is
  \<open>JSON.parse\<close> (\<open>None\<close> when it throws); the two \<open>get...\<close> helpers are those of
  \<open>lib/utils\<close>, \<open>basename\<close> is the one of \<open>node:path\<close>; \<open>getForeignStateAsync\<close>
  yields the value of the state, \<open>None\<close> when there is no state.
\<close>

record client =
  isReady :: bool
  guild_channel :: "string \<Rightarrow> string \<Rightarrow> channel_handle option"
  users_cache :: "string \<Rightarrow> user_handle option"
  guild_member :: "string \<Rightarrow> string \<Rightarrow> bool"
  stateId2SendTargetInfo :: "string \<Rightarrow> target_info option"
  createDM :: "string \<Rightarrow> channel_handle result"
  messages_cache :: "string \<Rightarrow> jsval \<Rightarrow> string option"
  messages_fetch :: "string \<Rightarrow> jsval \<Rightarrow> string option result"
  react_ok :: "string \<Rightarrow> string \<Rightarrow> bool"
  send_ok :: "target \<Rightarrow> jsval \<Rightarrow> bool"
  voice_ok :: "remote_call \<Rightarrow> bool"
  presence_ok :: "remote_call \<Rightarrow> bool"
  getForeignStateAsync :: "string \<Rightarrow> jsval option result"
  json_parse :: "string \<Rightarrow> jsval option"
  getBufferAndNameFromBase64String :: "string \<Rightarrow> (string \<times> string) option"
  getBasenameFromFilePathOrUrl :: "string \<Rightarrow> string"
  basename :: "string \<Rightarrow> string"

subsection \<open>Target resolution (compiled version)\<close>

definition is_send_action :: "string \<Rightarrow> bool" where
  "is_send_action act = (act \<in> set [''send'', ''sendFile'', ''sendReaction'', ''sendReply''])"

text \<open>
  The first pattern of onSendStateChange: the groups are the base id \<open>m[1]\<close>, the guild id
  \<open>m[2]\<close>, the channel id \<open>m[5] || m[3]\<close> and the action \<open>m[6]\<close>.
\<close>

definition match_channel_state :: "string \<Rightarrow> (string \<times> string \<times> string \<times> string) option" where
  "match_channel_state stateId =
     (case split_dots stateId of
        [d, inst, srv, g, chs, ch, act] \<Rightarrow>
          if d = ''discord'' \<and> digits inst \<and> srv = ''servers'' \<and> digits g \<and> chs = ''channels''
             \<and> digits ch \<and> is_send_action act
          then Some (join_dots [d, inst, srv, g, chs, ch], g, ch, act) else None
      | [d, inst, srv, g, chs, ch, chs2, ch2, act] \<Rightarrow>
          if d = ''discord'' \<and> digits inst \<and> srv = ''servers'' \<and> digits g \<and> chs = ''channels''
             \<and> digits ch \<and> chs2 = ''channels'' \<and> digits ch2 \<and> is_send_action act
          then Some (join_dots [d, inst, srv, g, chs, ch, chs2, ch2], g, ch2, act) else None
      | _ \<Rightarrow> None)"

definition match_user_state :: "string \<Rightarrow> (string \<times> string \<times> string) option" where
  "match_user_state stateId =
     (case split_dots stateId of
        [d, inst, usrs, u, act] \<Rightarrow>
          if d = ''discord'' \<and> digits inst \<and> usrs = ''users'' \<and> digits u \<and> is_send_action act
          then Some (join_dots [d, inst, usrs, u], u, act) else None
      | _ \<Rightarrow> None)"

text \<open>
  The target, the base id \<open>targetStateIdBase\<close> and the action; \<open>None\<close> where the function
  returns false because no valid text channel or user is found.
\<close>

definition resolve_target :: "client \<Rightarrow> string \<Rightarrow> (target \<times> string \<times> string) option" where
  "resolve_target c stateId =
     (case match_channel_state stateId of
        Some (base, guildId, channelId, act) \<Rightarrow>
          (case guild_channel c guildId channelId of
             None \<Rightarrow> None
           | Some channel \<Rightarrow>
               if \<not> chan_isText channel \<or> chan_isThread channel then None
               else Some (TChannel channel, base, act))
      | None \<Rightarrow>
          (case match_user_state stateId of
             None \<Rightarrow> None
           | Some (base, userId, act) \<Rightarrow>
               (case users_cache c userId of
                  None \<Rightarrow> None
                | Some user \<Rightarrow> Some (TUser user, base, act))))"

subsection \<open>Payload grammar\<close>

text \<open>
  The two-part grammar of sendFile, sendReply and sendReaction: the value is cut at the
  first \<open>|\<close> only when \<open>indexOf\<close> is greater than 0.
\<close>

definition split_pipe :: "string \<Rightarrow> (string \<times> string) option" where
  "split_pipe v =
     (let idx = indexOf v (CHR ''|'')
      in if idx > 0 then Some (take (nat idx) v, drop (nat idx + 1) v) else None)"

text \<open>
  The message reference and the content of sendReply and sendReaction. Without a cut the
  reference is the value of the mirrored \<open><base>.messageId\<close> state (undefined without a
  state) and the whole value is the content.
\<close>

definition reference_and_content :: "client \<Rightarrow> string \<Rightarrow> string \<Rightarrow> (jsval \<times> string) result" where
  "reference_and_content c base v =
     (case split_pipe v of
        Some (ref, content) \<Rightarrow> Returns (JStr ref, content)
      | None \<Rightarrow>
          (case getForeignStateAsync c (base @ ''.messageId'') of
             Throws \<Rightarrow> Throws
           | Returns st \<Rightarrow> Returns (case st of None \<Rightarrow> JUndefined | Some x \<Rightarrow> x, v)))"

definition try_send :: "client \<Rightarrow> target \<Rightarrow> jsval \<Rightarrow> bool result \<times> remote_call list" where
  "try_send c tgt mo = (Returns (send_ok c tgt mo), [Send tgt mo])"

definition reply_mo :: "string \<Rightarrow> jsval \<Rightarrow> jsval" where
  "reply_mo content messageReference =
     JObj [(''content'', JStr content),
           (''reply'', JObj [(''messageReference'', messageReference)])]"

text \<open>
  The reaction: the channel is the target channel, or the user's DM channel (created when
  there is none); the message comes from the channel's cache or is fetched. A rejected
  \<open>createDM\<close> or \<open>fetch\<close> is not caught.
\<close>

definition react_in :: "client \<Rightarrow> channel_handle \<Rightarrow> jsval \<Rightarrow> string \<Rightarrow> remote_call list
    \<Rightarrow> bool result \<times> remote_call list" where
  "react_in c channel messageReference content calls =
     (if \<not> chan_isText channel then (Returns False, calls)
      else
        (case messages_cache c (chan_id channel) messageReference of
           Some message \<Rightarrow> (Returns (react_ok c message content), calls @ [React message content])
         | None \<Rightarrow>
             (case messages_fetch c (chan_id channel) messageReference of
                Throws \<Rightarrow> (Throws, calls @ [FetchMessage (chan_id channel) messageReference])
              | Returns None \<Rightarrow>
                  (Returns False, calls @ [FetchMessage (chan_id channel) messageReference])
              | Returns (Some message) \<Rightarrow>
                  (Returns (react_ok c message content),
                   calls @ [FetchMessage (chan_id channel) messageReference, React message content]))))"

definition send_reaction :: "client \<Rightarrow> target \<Rightarrow> jsval \<Rightarrow> string \<Rightarrow> bool result \<times> remote_call list" where
  "send_reaction c tgt messageReference content =
     (case tgt of
        TChannel channel \<Rightarrow> react_in c channel messageReference content []
      | TUser user \<Rightarrow>
          (case usr_dmChannel user of
             Some channel \<Rightarrow> react_in c channel messageReference content []
           | None \<Rightarrow>
               (case createDM c (usr_id user) of
                  Throws \<Rightarrow> (Throws, [CreateDM (usr_id user)])
                | Returns channel \<Rightarrow>
                    react_in c channel messageReference content [CreateDM (usr_id user)])))"

definition file_mo :: "jsval \<Rightarrow> jsval \<Rightarrow> string \<Rightarrow> jsval" where
  "file_mo content attachment name =
     JObj [(''content'', content),
           (''files'', JArr [JObj [(''attachment'', attachment), (''name'', JStr name)]])]"

definition sendFile_mo :: "client \<Rightarrow> string \<Rightarrow> jsval" where
  "sendFile_mo c v =
     (let (file, content) =
            (case split_pipe v of
               Some (f, t) \<Rightarrow> (f, JStr t)
             | None \<Rightarrow> (v, JUndefined))
      in case getBufferAndNameFromBase64String c file of
           Some (buffer, name) \<Rightarrow> file_mo content (JStr buffer) name
         | None \<Rightarrow>
             (let name = getBasenameFromFilePathOrUrl c file;
                  file' = (if prefix ''file://'' file then drop 7 file else file)
              in file_mo content (JStr file') name))"

text \<open>The basic checks against a parsed JSON value; true when the value is refused.\<close>

definition json_mo_invalid :: "jsval \<Rightarrow> bool" where
  "json_mo_invalid mo =
     (\<not> truthy (getprop mo ''files'') \<and> \<not> truthy (getprop mo ''content'')
      \<or> truthy (getprop mo ''files'') \<and> \<not> isArray (getprop mo ''files'')
      \<or> truthy (getprop mo ''embeds'') \<and> \<not> isArray (getprop mo ''embeds''))"

definition looks_like_json :: "string \<Rightarrow> bool" where
  "looks_like_json v = (prefix ''{'' v \<and> suffix ''}'' v)"

text \<open>The part of onSendStateChange after the target is known (compiled version).\<close>

definition send_payload ::
  "client \<Rightarrow> target \<Rightarrow> string \<Rightarrow> string \<Rightarrow> string \<Rightarrow> bool result \<times> remote_call list" where
  "send_payload c tgt base act v =
     (if act = ''sendFile'' then try_send c tgt (sendFile_mo c v)
      else if act = ''sendReply'' \<or> act = ''sendReaction'' then
        (case reference_and_content c base v of
           Throws \<Rightarrow> (Throws, [])
         | Returns (messageReference, content) \<Rightarrow>
             if act = ''sendReply'' then
               (if \<not> truthy messageReference \<or> content = [] then (Returns False, [])
                else try_send c tgt (reply_mo content messageReference))
             else
               (if \<not> truthy messageReference \<or> content = [] then (Returns False, [])
                else send_reaction c tgt messageReference content))
      else if looks_like_json v then
        (case json_parse c v of
           None \<Rightarrow> (Returns False, [])
         | Some mo \<Rightarrow>
             if json_mo_invalid mo then (Returns False, []) else try_send c tgt mo)
      else try_send c tgt (JObj [(''content'', JStr v)]))"

text \<open>onSendStateChange(stateId, state) of the compiled version, on the value of the state.\<close>

definition onSendStateChange :: "client \<Rightarrow> string \<Rightarrow> jsval \<Rightarrow> bool result \<times> remote_call list" where
  "onSendStateChange c stateId val =
     (if \<not> isReady c then (Returns False, [])
      else
        (case val of
           JStr v \<Rightarrow>
             if length v = 0 then (Returns False, [])
             else
               (case resolve_target c stateId of
                  None \<Rightarrow> (Returns False, [])
                | Some (tgt, base, act) \<Rightarrow> send_payload c tgt base act v)
         | _ \<Rightarrow> (Returns False, [])))"

subsection \<open>The command router of the TypeScript version\<close>

text \<open>
  \<open>stateId.replace(/^(.+)\.\w+$/, '$1')\<close>: the last segment is dropped when it is a
  non-empty run of word characters and the text before its dot is non-empty and free of
  line terminators; otherwise the id is kept. Identifiers are taken to be ASCII.
\<close>

definition is_word :: "string \<Rightarrow> bool" where
  "is_word s =
     (s \<noteq> [] \<and>
      list_all (\<lambda>c. c \<in> set ''abcdefghijklmnopqrstuvwxyzABCDEFGHIJKLMNOPQRSTUVWXYZ0123456789_'') s)"

definition stateIdChannel_of :: "string \<Rightarrow> string" where
  "stateIdChannel_of stateId =
     (let segs = split_dots stateId; front = join_dots (butlast segs)
      in if length segs \<ge> 2 \<and> is_word (last segs) \<and> front \<noteq> []
            \<and> list_all (\<lambda>c. c \<noteq> CHR 0x0A \<and> c \<noteq> CHR 0x0D) front
         then front else stateId)"

definition sendFile_mo_ts :: "client \<Rightarrow> string \<Rightarrow> jsval" where
  "sendFile_mo_ts c v =
     (let (file, content) =
            (case split_pipe v of
               Some (f, t) \<Rightarrow> (f, JStr t)
             | None \<Rightarrow> (v, JUndefined))
      in file_mo content (JStr file) (basename c file))"

text \<open>
  The reaction channel of the TypeScript version:
  \<open>info.channel || info.user?.dmChannel || await info.user?.createDM()\<close>.
\<close>

definition send_reaction_ts ::
  "client \<Rightarrow> target_info \<Rightarrow> jsval \<Rightarrow> string \<Rightarrow> bool result \<times> remote_call list" where
  "send_reaction_ts c info messageReference content =
     (case ti_channel info of
        Some channel \<Rightarrow> react_in c channel messageReference content []
      | None \<Rightarrow>
          (case ti_user info of
             None \<Rightarrow> (Returns False, [])
           | Some user \<Rightarrow>
               (case usr_dmChannel user of
                  Some channel \<Rightarrow> react_in c channel messageReference content []
                | None \<Rightarrow>
                    (case createDM c (usr_id user) of
                       Throws \<Rightarrow> (Throws, [CreateDM (usr_id user)])
                     | Returns channel \<Rightarrow>
                         react_in c channel messageReference content [CreateDM (usr_id user)]))))"

text \<open>
  The target of the TypeScript version, from the map entry of the channel id:
  \<open>None\<close> where the function returns false.
\<close>

definition resolve_target_ts :: "client \<Rightarrow> string \<Rightarrow> (target \<times> target_info) option" where
  "resolve_target_ts c stateId =
     (case stateId2SendTargetInfo c (stateIdChannel_of stateId) of
        None \<Rightarrow> None
      | Some info \<Rightarrow>
          (if ti_guild info \<and> ti_channel info \<noteq> None then
             (case ti_channel info of
                Some channel \<Rightarrow> if \<not> chan_isText channel then None else Some (TChannel channel, info)
              | None \<Rightarrow> None)
           else
             (case ti_user info of
                Some user \<Rightarrow> Some (TUser user, info)
              | None \<Rightarrow> None)))"

definition send_payload_ts ::
  "client \<Rightarrow> target \<Rightarrow> target_info \<Rightarrow> string \<Rightarrow> string \<Rightarrow> bool result \<times> remote_call list" where
  "send_payload_ts c tgt info stateId v =
     (if suffix ''.sendFile'' stateId then try_send c tgt (sendFile_mo_ts c v)
      else if suffix ''.sendReply'' stateId \<or> suffix ''.sendReaction'' stateId then
        (case reference_and_content c (stateIdChannel_of stateId) v of
           Throws \<Rightarrow> (Throws, [])
         | Returns (messageReference, content) \<Rightarrow>
             if suffix ''.sendReply'' stateId then
               (if \<not> truthy messageReference \<or> content = [] then (Returns False, [])
                else try_send c tgt (reply_mo content messageReference))
             else
               (if \<not> truthy messageReference \<or> content = [] then (Returns False, [])
                else send_reaction_ts c info messageReference content))
      else if looks_like_json v then
        (case json_parse c v of
           None \<Rightarrow> (Returns False, [])
         | Some mo \<Rightarrow>
             if json_mo_invalid mo then (Returns False, []) else try_send c tgt mo)
      else try_send c tgt (JObj [(''content'', JStr v)]))"

definition onSendStateChange_ts :: "client \<Rightarrow> string \<Rightarrow> jsval \<Rightarrow> bool result \<times> remote_call list" where
  "onSendStateChange_ts c stateId val =
     (if \<not> isReady c then (Returns False, [])
      else
        (case val of
           JStr v \<Rightarrow>
             if length v = 0 then (Returns False, [])
             else
               (case resolve_target_ts c stateId of
                  None \<Rightarrow> (Returns False, [])
                | Some (tgt, info) \<Rightarrow> send_payload_ts c tgt info stateId v)
         | _ \<Rightarrow> (Returns False, [])))"

subsection \<open>State changes\<close>

text \<open>
  The voice actions of the compiled version. The pattern is
  \<open>^discord\.\d+\.servers\.(\d+)\.members\.(\d+)\.voice(Disconnect|ServerMute|ServerDeaf)$\<close>;
  a rejected remote call is caught and gives false.
\<close>

definition match_voice_state :: "string \<Rightarrow> (string \<times> string \<times> string) option" where
  "match_voice_state stateId =
     (case split_dots stateId of
        [d, inst, srv, g, mems, m, act] \<Rightarrow>
          if d = ''discord'' \<and> digits inst \<and> srv = ''servers'' \<and> digits g \<and> mems = ''members''
             \<and> digits m \<and> act \<in> set [''voiceDisconnect'', ''voiceServerMute'', ''voiceServerDeaf'']
          then Some (g, m, drop 5 act) else None
      | _ \<Rightarrow> None)"

definition onVoiceStateChange :: "client \<Rightarrow> string \<Rightarrow> jsval \<Rightarrow> bool result \<times> remote_call list" where
  "onVoiceStateChange c stateId val =
     (case match_voice_state stateId of
        None \<Rightarrow> (Returns False, [])
      | Some (guildId, memberId, action) \<Rightarrow>
          if \<not> guild_member c guildId memberId then (Returns False, [])
          else if action = ''Disconnect'' then
            (if \<not> truthy val then (Returns False, [])
             else (Returns (voice_ok c (VoiceDisconnect guildId memberId)),
                   [VoiceDisconnect guildId memberId]))
          else if action = ''ServerDeaf'' then
            (Returns (voice_ok c (VoiceSetDeaf guildId memberId (truthy val))),
             [VoiceSetDeaf guildId memberId (truthy val)])
          else if action = ''ServerMute'' then
            (Returns (voice_ok c (VoiceSetMute guildId memberId (truthy val))),
             [VoiceSetMute guildId memberId (truthy val)])
          else (Returns False, []))"

text \<open>
  A state as the store reports it: its value and its acknowledgement flag. The remaining
  properties are copied unchanged by \<open>{...state, ack: true}\<close> and are left out.
\<close>

record state =
  val :: jsval
  ack :: bool

text \<open>
  The bot presence update of the three \<open>bot.*\<close> states is an external effect here: one
  remote call that may reject, in which case the handler throws.
\<close>

definition setBotPresence :: "client \<Rightarrow> string \<Rightarrow> jsval \<Rightarrow> bool result \<times> remote_call list" where
  "setBotPresence c field v =
     (if presence_ok c (SetBotPresence field v) then Returns True else Throws,
      [SetBotPresence field v])"

text \<open>
  onStateChange(stateId, state) of the compiled version: the result, the remote calls and
  the store calls it issues. The only store call is the re-write of the triggering state
  with \<open>ack: true\<close>, issued when \<open>setAck\<close> is true.
\<close>

definition onStateChange ::
  "env \<Rightarrow> client \<Rightarrow> string \<Rightarrow> state option \<Rightarrow> unit result \<times> remote_call list \<times> store_call list" where
  "onStateChange e c stateId st =
     (case st of
        None \<Rightarrow> (Returns (), [], [])
      | Some s \<Rightarrow>
          if ack s then (Returns (), [], [])
          else
            (let (setAck, calls) =
                   (if prefix (namespace e @ ''.'') stateId then
                      (if stateId = namespace e @ ''.bot.status'' then setBotPresence c ''status'' (val s)
                       else if stateId = namespace e @ ''.bot.activityType''
                         then setBotPresence c ''activityType'' (val s)
                       else if stateId = namespace e @ ''.bot.activityName''
                         then setBotPresence c ''activityName'' (val s)
                       else if suffix ''.send'' stateId \<or> suffix ''.sendFile'' stateId
                               \<or> suffix ''.sendReply'' stateId \<or> suffix ''.sendReaction'' stateId
                         then onSendStateChange c stateId (val s)
                       else if suffix ''.voiceDisconnect'' stateId \<or> suffix ''.voiceServerMute'' stateId
                               \<or> suffix ''.voiceServerDeaf'' stateId
                         then onVoiceStateChange c stateId (val s)
                       else (Returns False, []))
                    else (Returns False, []))
             in case setAck of
                  Throws \<Rightarrow> (Throws, calls, [])
                | Returns True \<Rightarrow>
                    (if store_rejects e (SetState stateId (val s) True) then Throws else Returns (),
                     calls, [SetState stateId (val s) True])
                | Returns False \<Rightarrow> (Returns (), calls, [])))"

subsection \<open>The reply grammar\<close>

text \<open>
  The outcome of a reply once the message reference and the content are known: false
  without any remote call when one of them is empty (falsy), otherwise one
  \<open>target.send\<close> carrying the content and the reply reference; the result is true unless
  that send rejects.
\<close>

definition reply_dispatch :: "client \<Rightarrow> target \<Rightarrow> jsval \<Rightarrow> string \<Rightarrow> bool result \<times> remote_call list" where
  "reply_dispatch c tgt messageReference content =
     (if \<not> truthy messageReference \<or> content = [] then (Returns False, [])
      else (Returns (send_ok c tgt (reply_mo content messageReference)),
            [Send tgt (reply_mo content messageReference)]))"

definition mirrored_messageId :: "jsval option \<Rightarrow> jsval" where
  "mirrored_messageId st = (case st of None \<Rightarrow> JUndefined | Some x \<Rightarrow> x)"

text \<open>
  The reply grammar in the words of the specification: the value is split on the first
  \<open>|\<close>, the left side is the message id and the right side the content; without a \<open>|\<close>
  the id is the mirrored one and the whole value is the content.
\<close>

definition claimed_reply_parts :: "string \<Rightarrow> jsval \<Rightarrow> jsval \<times> string" where
  "claimed_reply_parts v mirrored =
     (if CHR ''|'' \<in> set v
      then (JStr (takeWhile (\<lambda>x. x \<noteq> CHR ''|'') v), tl (dropWhile (\<lambda>x. x \<noteq> CHR ''|'') v))
      else (mirrored, v))"

definition claimed_sendReply :: "client \<Rightarrow> target \<Rightarrow> string \<Rightarrow> jsval \<Rightarrow> bool result \<times> remote_call list" where
  "claimed_sendReply c tgt v mirrored =
     (case claimed_reply_parts v mirrored of
        (messageReference, content) \<Rightarrow> reply_dispatch c tgt messageReference content)"

text \<open>A ready client with text channel 2 on server 1 whose last mirrored message id is 111.\<close>

definition chan0 :: channel_handle where
  "chan0 = \<lparr>chan_id = ''2'', chan_isText = True, chan_isThread = False\<rparr>"

definition client0 :: client where
  "client0 =
     \<lparr>isReady = True,
      guild_channel = (\<lambda>g ch. if g = ''1'' \<and> ch = ''2'' then Some chan0 else None),
      users_cache = (\<lambda>u. None),
      guild_member = (\<lambda>g m. False),
      stateId2SendTargetInfo =
        (\<lambda>k. if k = ''discord.0.servers.1.channels.2''
              then Some \<lparr>ti_guild = True, ti_channel = Some chan0, ti_user = None\<rparr> else None),
      createDM = (\<lambda>u. Throws),
      messages_cache = (\<lambda>ch r. None),
      messages_fetch = (\<lambda>ch r. Returns None),
      react_ok = (\<lambda>m x. True),
      send_ok = (\<lambda>t mo. True),
      voice_ok = (\<lambda>x. True),
      presence_ok = (\<lambda>x. True),
      getForeignStateAsync =
        (\<lambda>k. if k = ''discord.0.servers.1.channels.2.messageId''
              then Returns (Some (JStr ''111'')) else Returns None),
      json_parse =
        (\<lambda>s. if s = ''{\"content\":\"hi\"}'' then Some (JObj [(''content'', JStr ''hi'')])
              else None),
      getBufferAndNameFromBase64String = (\<lambda>s. None),
      getBasenameFromFilePathOrUrl = (\<lambda>s. s),
      basename = (\<lambda>s. s)\<rparr>"

subsection \<open>Presence projection\<close>

record activity =
  act_type :: string
  act_name :: string
  act_state :: "string option"

record presence =
  p_status :: string
  p_activities :: "activity list"

record presence_result =
  pr_activityName :: string
  pr_activityType :: string
  pr_status :: string

definition no_presence :: presence_result where
  "no_presence = \<lparr>pr_activityName = [], pr_activityType = [], pr_status = []\<rparr>"

text \<open>\<open>presence?.activities[0]\<close>: undefined without a presence or without an activity.\<close>

definition first_activity :: "presence option \<Rightarrow> activity option" where
  "first_activity presence =
     (case presence of
        None \<Rightarrow> None
      | Some p \<Rightarrow> (case p_activities p of [] \<Rightarrow> None | x # _ \<Rightarrow> Some x))"

text \<open>
  The object \<open>p\<close> of updateUserPresence: the status, the activity name (the state of a
  CUSTOM activity, the name of any other) and the activity type, each \<open>|| ''\<close>.
\<close>

definition presence_values :: "presence option \<Rightarrow> presence_result" where
  "presence_values presence =
     \<lparr>pr_activityName =
        (case first_activity presence of
           None \<Rightarrow> []
         | Some x \<Rightarrow>
             if act_type x = ''CUSTOM'' then (case act_state x of None \<Rightarrow> [] | Some s \<Rightarrow> s)
             else act_name x),
      pr_activityType = (case first_activity presence of None \<Rightarrow> [] | Some x \<Rightarrow> act_type x),
      pr_status = (case presence of None \<Rightarrow> [] | Some p \<Rightarrow> p_status p)\<rparr>"

text \<open>Assignment \<open>o.k = v\<close> on an object: the property keeps its place, a new one goes last.\<close>

fun setprop :: "(string \<times> jsval) list \<Rightarrow> string \<Rightarrow> jsval \<Rightarrow> (string \<times> jsval) list" where
  "setprop [] k v = [(k, v)]"
| "setprop ((k', v') # kvs) k v = (if k' = k then (k, v) # kvs else (k', v') # setprop kvs k v)"

text \<open>
  The update of the cached user snapshot, done unless \<open>skipJsonStateUpdate\<close> is set: the
  cached object gets the three values and is written. The cache holds objects only, so
  \<open>if (json)\<close> tests whether there is an entry. The result is the changed adapter and the
  store call pushed to \<open>proms\<close>.
\<close>

definition presence_json_update ::
  "env \<Rightarrow> string \<Rightarrow> presence_result \<Rightarrow> bool \<Rightarrow> adapter \<Rightarrow> adapter \<times> store_call list" where
  "presence_json_update e userId p skipJsonStateUpdate a =
     (if skipJsonStateUpdate then (a, [])
      else
        (case jsonStateCache a (namespace e @ ''.users.'' @ userId @ ''.json'') of
           Some (JObj kvs) \<Rightarrow>
             (let json = JObj (setprop (setprop (setprop kvs ''status'' (JStr (pr_status p)))
                                  ''activityName'' (JStr (pr_activityName p)))
                                  ''activityType'' (JStr (pr_activityType p)))
              in (a\<lparr>jsonStateCache :=
                      (jsonStateCache a)(namespace e @ ''.users.'' @ userId @ ''.json'' \<mapsto> json)\<rparr>,
                  [SetState (''users.'' @ userId @ ''.json'') (JStr (stringify e json)) True]))
         | _ \<Rightarrow> (a, [])))"

text \<open>
  updateUserPresence(userId, presence, skipJsonStateUpdate) of the compiled version. All
  writes of the \<open>Promise.all\<close> are issued; when one of them rejects the error is caught
  and the empty result is returned.
\<close>

definition updateUserPresence ::
  "env \<Rightarrow> string \<Rightarrow> presence option \<Rightarrow> bool \<Rightarrow> adapter \<Rightarrow> presence_result \<times> adapter" where
  "updateUserPresence e userId presence skipJsonStateUpdate a =
     (if \<not> observeUserPresence e then (no_presence, a)
      else
        (let p = presence_values presence;
             (a1, proms) = presence_json_update e userId p skipJsonStateUpdate a;
             calls = proms @
               [SetState (''users.'' @ userId @ ''.status'') (JStr (pr_status p)) True,
                SetState (''users.'' @ userId @ ''.activityName'') (JStr (pr_activityName p)) True,
                SetState (''users.'' @ userId @ ''.activityType'') (JStr (pr_activityType p)) True];
             a2 = a1\<lparr>store_calls := store_calls a1 @ calls\<rparr>
         in if list_ex (store_rejects e) calls then (no_presence, a2) else (p, a2)))"

text \<open>The TypeScript version: the same text, but for the values of the last two writes.\<close>

definition updateUserPresence_ts ::
  "env \<Rightarrow> string \<Rightarrow> presence option \<Rightarrow> bool \<Rightarrow> adapter \<Rightarrow> presence_result \<times> adapter" where
  "updateUserPresence_ts e userId presence skipJsonStateUpdate a =
     (if \<not> observeUserPresence e then (no_presence, a)
      else
        (let p = presence_values presence;
             (a1, proms) = presence_json_update e userId p skipJsonStateUpdate a;
             calls = proms @
               [SetState (''users.'' @ userId @ ''.status'') (JStr (pr_status p)) True,
                SetState (''users.'' @ userId @ ''.activityName'') (JStr (pr_activityType p)) True,
                SetState (''users.'' @ userId @ ''.activityType'') (JStr (pr_activityName p)) True];
             a2 = a1\<lparr>store_calls := store_calls a1 @ calls\<rparr>
         in if list_ex (store_rejects e) calls then (no_presence, a2) else (p, a2)))"

text \<open>A user who is online and playing chess.\<close>

definition playing_chess :: presence where
  "playing_chess =
     \<lparr>p_status = ''online'',
      p_activities = [\<lparr>act_type = ''PLAYING'', act_name = ''Chess'', act_state = None\<rparr>]\<rparr>"

subsection \<open>The plain send grammar\<close>

text \<open>
  The outcome of a write to a send state once the target is known. A property counts as
  present when its value is truthy (an empty string, 0, false and null count as absent).
\<close>

definition send_dispatch :: "client \<Rightarrow> target \<Rightarrow> string \<Rightarrow> bool result \<times> remote_call list" where
  "send_dispatch c tgt v =
     (if prefix ''{'' v \<and> suffix ''}'' v then
        (case json_parse c v of
           None \<Rightarrow> (Returns False, [])
         | Some mo \<Rightarrow>
             if \<not> truthy (getprop mo ''content'') \<and> \<not> truthy (getprop mo ''files'')
                \<or> truthy (getprop mo ''files'') \<and> \<not> isArray (getprop mo ''files'')
                \<or> truthy (getprop mo ''embeds'') \<and> \<not> isArray (getprop mo ''embeds'')
             then (Returns False, [])
             else (Returns (send_ok c tgt mo), [Send tgt mo]))
      else (Returns (send_ok c tgt (JObj [(''content'', JStr v)])),
            [Send tgt (JObj [(''content'', JStr v)])]))"

subsection \<open>The remote graph\<close>

text \<open>
  What the remote side delivers to a reconciliation pass. A fetch that rejects is \<open>None\<close>:
  the guild list, a guild (\<open>guildBase.fetch()\<close>), its members and its channels. Voice flags
  are the values after \<open>!!\<close>.
\<close>

record remote_user =
  ru_id :: string
  ru_tag :: string
  ru_bot :: bool
  ru_avatarUrl :: string

record voice_state =
  vs_channel :: "(string \<times> string) option"
  vs_selfDeaf :: bool
  vs_serverDeaf :: bool
  vs_selfMute :: bool
  vs_serverMute :: bool

record member =
  mem_id :: string
  mem_user :: remote_user
  mem_displayName :: string
  mem_roles :: "string list"
  mem_joinedTimestamp :: "int option"
  mem_voice :: voice_state
  mem_presence :: "presence option"

record channel_member =
  cm_id :: string
  cm_tag :: string
  cm_displayName :: string

record channel =
  ch_id :: string
  ch_name :: string
  ch_type :: string
  ch_parentId :: "string option"
  ch_parentName :: "string option"
  ch_isText :: bool
  ch_isVoice :: bool
  ch_members :: "channel_member list"

record guild =
  g_id :: string
  g_name :: string
  g_members :: "member list option"
  g_channels :: "channel list option"

record remote =
  client_user :: "string option"
  guilds :: "guild option list option"

text \<open>
  The rows of the two \<open>getObjectListAsync\<close> calls of the sweep (their ids; \<open>None\<close> when the
  call rejects).
\<close>

record store_listing =
  servers_rows :: "string list option"
  users_rows :: "string list option"

subsection \<open>Object definitions\<close>

definition channel_obj :: "string \<Rightarrow> jsval" where
  "channel_obj name =
     JObj [(''type'', JStr ''channel''),
           (''common'', JObj [(''name'', JStr name)]),
           (''native'', JObj [])]"

definition state_obj :: "string \<Rightarrow> string \<Rightarrow> string \<Rightarrow> bool \<Rightarrow> bool \<Rightarrow> jsval \<Rightarrow> jsval" where
  "state_obj name role type r w dflt =
     JObj [(''type'', JStr ''state''),
           (''common'', JObj [(''name'', JStr name), (''role'', JStr role), (''type'', JStr type),
                             (''read'', JBool r), (''write'', JBool w), (''def'', dflt)]),
           (''native'', JObj [])]"

text \<open>\<open>xs.join(', ')\<close>.\<close>

fun join_comma :: "string list \<Rightarrow> string" where
  "join_comma [] = []"
| "join_comma [x] = x"
| "join_comma (x # xs) = x @ '', '' @ join_comma xs"

text \<open>\<open>s || ''\<close> for the name and the id of the member's voice channel.\<close>

definition voiceChannelName :: "member \<Rightarrow> string" where
  "voiceChannelName m = (case vs_channel (mem_voice m) of None \<Rightarrow> [] | Some (name, _) \<Rightarrow> name)"

definition voiceChannelId :: "member \<Rightarrow> string" where
  "voiceChannelId m = (case vs_channel (mem_voice m) of None \<Rightarrow> [] | Some (_, cid) \<Rightarrow> cid)"

definition num_or_null :: "int option \<Rightarrow> jsval" where
  "num_or_null n = (case n of None \<Rightarrow> JNull | Some i \<Rightarrow> JNum i)"

subsection \<open>Statements of a reconciliation pass\<close>

text \<open>
  The operations the pass performs on the adapter:
  \<^item> \<open>ExtendCached id obj\<close> is \<open>this.extendObjectAsyncCached(id, obj)\<close>;
  \<^item> \<open>SetStateAck id v\<close> is \<open>this.setStateAsync(id, v, true)\<close>, issued unconditionally;
  \<^item> \<open>JsonAwait id json\<close> is the member snapshot: unless the cached snapshot under
    \<open><namespace>.<id>\<close> is deeply equal, the write is awaited and then the cache is set;
  \<^item> \<open>JsonPush id json\<close> is the channel and user snapshot: unless deeply equal, the
    write is issued (pushed to \<open>proms\<close>) and the cache is set at once;
  \<^item> \<open>AddReceive key\<close> is \<open>this.messageReceiveStates.add(key)\<close>;
  \<^item> \<open>Presence userId presence skip\<close> is a call of updateUserPresence whose result is not
    used; it never rejects.
  A statement awaits one operation, awaits \<open>Promise.all\<close> of several (all of them are
  started, and the statement throws when one rejects), or is a remote fetch that
  rejected.
\<close>

datatype op =
    ExtendCached string jsval
  | SetStateAck string jsval
  | JsonAwait string jsval
  | JsonPush string jsval
  | AddReceive string
  | Presence string "presence option" bool

datatype stmt = Await op | All "op list" | Raise

fun exec_op :: "env \<Rightarrow> op \<Rightarrow> adapter \<Rightarrow> unit result \<times> adapter" where
  "exec_op e (ExtendCached ident obj) a = extendObjectAsyncCached e ident obj a"
| "exec_op e (SetStateAck ident v) a = call_store e (SetState ident v True) a"
| "exec_op e (JsonAwait ident json) a =
     (if isDeepStrictEqual (jsonStateCache a (namespace e @ ''.'' @ ident)) json then (Returns (), a)
      else case call_store e (SetState ident (JStr (stringify e json)) True) a of
             (Throws, a1) \<Rightarrow> (Throws, a1)
           | (Returns _, a1) \<Rightarrow>
               (Returns (),
                a1\<lparr>jsonStateCache := (jsonStateCache a1)(namespace e @ ''.'' @ ident \<mapsto> json)\<rparr>))"
| "exec_op e (JsonPush ident json) a =
     (if isDeepStrictEqual (jsonStateCache a (namespace e @ ''.'' @ ident)) json then (Returns (), a)
      else case call_store e (SetState ident (JStr (stringify e json)) True) a of
             (r, a1) \<Rightarrow>
               (r, a1\<lparr>jsonStateCache := (jsonStateCache a1)(namespace e @ ''.'' @ ident \<mapsto> json)\<rparr>))"
| "exec_op e (AddReceive key) a =
     (Returns (), a\<lparr>messageReceiveStates := insert key (messageReceiveStates a)\<rparr>)"
| "exec_op e (Presence userId presence skip) a =
     (Returns (), snd (updateUserPresence e userId presence skip a))"

fun exec_all :: "env \<Rightarrow> op list \<Rightarrow> adapter \<Rightarrow> unit result \<times> adapter" where
  "exec_all e [] a = (Returns (), a)"
| "exec_all e (x # xs) a =
     (case exec_op e x a of
        (r1, a1) \<Rightarrow>
          (case exec_all e xs a1 of
             (r2, a2) \<Rightarrow> (if r1 = Throws then Throws else r2, a2)))"

fun run :: "env \<Rightarrow> stmt list \<Rightarrow> adapter \<Rightarrow> unit result \<times> adapter" where
  "run e [] a = (Returns (), a)"
| "run e (Raise # rest) a = (Throws, a)"
| "run e (Await x # rest) a =
     (case exec_op e x a of
        (Throws, a1) \<Rightarrow> (Throws, a1)
      | (Returns _, a1) \<Rightarrow> run e rest a1)"
| "run e (All xs # rest) a =
     (case exec_all e xs a of
        (Throws, a1) \<Rightarrow> (Throws, a1)
      | (Returns _, a1) \<Rightarrow> run e rest a1)"

subsection \<open>Members\<close>

text \<open>The snapshot of a member, as the object literal builds it.\<close>

definition member_json :: "member \<Rightarrow> jsval" where
  "member_json m =
     JObj [(''tag'', JStr (ru_tag (mem_user m))),
           (''id'', JStr (mem_id m)),
           (''displayName'', JStr (mem_displayName m)),
           (''roles'', JArr (map JStr (mem_roles m))),
           (''joined'', num_or_null (mem_joinedTimestamp m)),
           (''voiceChannel'', JStr (voiceChannelName m)),
           (''voiceChannelId'', JStr (voiceChannelId m)),
           (''voiceSelfDeaf'', JBool (vs_selfDeaf (mem_voice m))),
           (''voiceServerDeaf'', JBool (vs_serverDeaf (mem_voice m))),
           (''voiceSelfMute'', JBool (vs_selfMute (mem_voice m))),
           (''voiceServerMute'', JBool (vs_serverMute (mem_voice m)))]"

text \<open>
  The body of the loop over the members of a guild: the container, the eleven state
  objects, the nine leaf values and the snapshot.
\<close>

definition member_stmts :: "env \<Rightarrow> guild \<Rightarrow> member \<Rightarrow> stmt list" where
  "member_stmts e g m =
     (let pre = ''servers.'' @ g_id g @ ''.members.'' @ mem_id m; tr = translate e
      in [Await (ExtendCached pre
                   (channel_obj (mem_displayName m @ '' ('' @ ru_tag (mem_user m) @ '')''))),
          All [ExtendCached (pre @ ''.tag'')
                 (state_obj (tr ''User tag'') ''text'' ''string'' True False (JStr [])),
               ExtendCached (pre @ ''.displayName'')
                 (state_obj (tr ''Display name'') ''text'' ''string'' True False (JStr [])),
               ExtendCached (pre @ ''.roles'')
                 (state_obj (tr ''Roles'') ''text'' ''string'' True False (JStr [])),
               ExtendCached (pre @ ''.joinedAt'')
                 (state_obj (tr ''Joined at'') ''date'' ''number'' True False (JNum 0)),
               ExtendCached (pre @ ''.voiceChannel'')
                 (state_obj (tr ''Voice channel'') ''text'' ''string'' True False (JStr [])),
               ExtendCached (pre @ ''.voiceDisconnect'')
                 (state_obj (tr ''Voice disconnect'') ''button'' ''boolean'' False True (JBool False)),
               ExtendCached (pre @ ''.voiceSelfDeaf'')
                 (state_obj (tr ''Voice self deafen'') ''indicator'' ''boolean'' True False (JBool False)),
               ExtendCached (pre @ ''.voiceServerDeaf'')
                 (state_obj (tr ''Voice server deafen'') ''switch'' ''boolean'' True True (JBool False)),
               ExtendCached (pre @ ''.voiceSelfMute'')
                 (state_obj (tr ''Voice self mute'') ''indicator'' ''boolean'' True False (JBool False)),
               ExtendCached (pre @ ''.voiceServerMute'')
                 (state_obj (tr ''Voice server mute'') ''switch'' ''boolean'' True True (JBool False)),
               ExtendCached (pre @ ''.json'')
                 (state_obj (tr ''JSON data'') ''json'' ''string'' True False (JStr []))],
          All [SetStateAck (pre @ ''.tag'') (JStr (ru_tag (mem_user m))),
               SetStateAck (pre @ ''.displayName'') (JStr (mem_displayName m)),
               SetStateAck (pre @ ''.roles'') (JStr (join_comma (mem_roles m))),
               SetStateAck (pre @ ''.joinedAt'') (num_or_null (mem_joinedTimestamp m)),
               SetStateAck (pre @ ''.voiceChannel'') (JStr (voiceChannelName m)),
               SetStateAck (pre @ ''.voiceSelfDeaf'') (JBool (vs_selfDeaf (mem_voice m))),
               SetStateAck (pre @ ''.voiceServerDeaf'') (JBool (vs_serverDeaf (mem_voice m))),
               SetStateAck (pre @ ''.voiceSelfMute'') (JBool (vs_selfMute (mem_voice m))),
               SetStateAck (pre @ ''.voiceServerMute'') (JBool (vs_serverMute (mem_voice m)))],
          Await (JsonAwait (pre @ ''.json'') (member_json m))])"

subsection \<open>Channels\<close>

text \<open>\<open>channel.parentId\<close> in a condition: set and not the empty string.\<close>

definition has_parent :: "channel \<Rightarrow> bool" where
  "has_parent ch = (case ch_parentId ch of None \<Rightarrow> False | Some p \<Rightarrow> p \<noteq> [])"

text \<open>
  The object path of a channel: \<open>parents\<close> is true in the first round of the loop, where
  the channels without a parent are handled.
\<close>

definition channelIdPrefix :: "guild \<Rightarrow> bool \<Rightarrow> channel \<Rightarrow> string" where
  "channelIdPrefix g parents ch =
     (if parents then ''servers.'' @ g_id g @ ''.channels.'' @ ch_id ch
      else ''servers.'' @ g_id g @ ''.channels.''
             @ (case ch_parentId ch of None \<Rightarrow> ''null'' | Some p \<Rightarrow> p)
             @ ''.channels.'' @ ch_id ch)"

definition channel_icon :: "channel \<Rightarrow> jsval" where
  "channel_icon ch =
     (if ch_isVoice ch then JStr ''channel-voice.svg''
      else if ch_isText ch then JStr ''channel-text.svg''
      else JUndefined)"

definition channel_container :: "channel \<Rightarrow> jsval" where
  "channel_container ch =
     JObj [(''type'', JStr ''channel''),
           (''common'',
              JObj [(''name'', JStr (case ch_parentName ch of
                                       None \<Rightarrow> ch_name ch
                                     | Some pn \<Rightarrow> pn @ '' / '' @ ch_name ch)),
                    (''icon'', channel_icon ch)]),
           (''native'', JObj [(''channelId'', JStr (ch_id ch))])]"

definition channel_json :: "channel \<Rightarrow> jsval" where
  "channel_json ch =
     JObj [(''id'', JStr (ch_id ch)),
           (''name'', JStr (ch_name ch)),
           (''type'', JStr (ch_type ch)),
           (''memberCount'', JNum (int (length (ch_members ch)))),
           (''members'',
              JArr (map (\<lambda>m. JObj [(''id'', JStr (cm_id m)), (''tag'', JStr (cm_tag m)),
                                    (''displayName'', JStr (cm_displayName m))])
                      (ch_members ch)))]"

text \<open>
  The state objects that mirror and send messages: nine for a text channel, and the same
  without \<open>messageAuthor\<close> for a user.
\<close>

definition message_objs :: "env \<Rightarrow> string \<Rightarrow> bool \<Rightarrow> op list" where
  "message_objs e pre withAuthor =
     (let tr = translate e
      in [ExtendCached (pre @ ''.message'')
            (state_obj (tr ''Last message'') ''text'' ''string'' True False (JStr [])),
          ExtendCached (pre @ ''.messageId'')
            (state_obj (tr ''Last message ID'') ''text'' ''string'' True False (JStr []))]
         @ (if withAuthor
            then [ExtendCached (pre @ ''.messageAuthor'')
                    (state_obj (tr ''Last message author'') ''text'' ''string'' True False (JStr []))]
            else [])
         @ [ExtendCached (pre @ ''.messageTimestamp'')
              (state_obj (tr ''Last message timestamp'') ''date'' ''number'' True False (JNum 0)),
            ExtendCached (pre @ ''.messageJson'')
              (state_obj (tr ''Last message JSON data'') ''json'' ''string'' True False (JStr [])),
            ExtendCached (pre @ ''.send'')
              (state_obj (tr ''Send message'') ''text'' ''string'' False True (JStr [])),
            ExtendCached (pre @ ''.sendFile'')
              (state_obj (tr ''Send file'') ''text'' ''string'' False True (JStr [])),
            ExtendCached (pre @ ''.sendReply'')
              (state_obj (tr ''Send reply'') ''text'' ''string'' False True (JStr [])),
            ExtendCached (pre @ ''.sendReaction'')
              (state_obj (tr ''Send reaction'') ''text'' ''string'' False True (JStr []))])"

text \<open>The body of the loop over the channels, for a channel that is not skipped.\<close>

definition channel_stmts :: "env \<Rightarrow> guild \<Rightarrow> bool \<Rightarrow> channel \<Rightarrow> stmt list" where
  "channel_stmts e g parents ch =
     (let pre = channelIdPrefix g parents ch; tr = translate e
      in [Await (ExtendCached pre (channel_container ch))]
         @ (if ch_type ch = ''GUILD_CATEGORY''
            then [Await (ExtendCached (pre @ ''.channels'') (channel_obj (tr ''Channels'')))]
            else [])
         @ [All [ExtendCached (pre @ ''.json'')
                   (state_obj (tr ''JSON data'') ''json'' ''string'' True False (JStr [])),
                 ExtendCached (pre @ ''.memberCount'')
                   (state_obj (tr ''Member count'') ''value'' ''number'' True False (JNum 0)),
                 ExtendCached (pre @ ''.members'')
                   (state_obj (tr ''Members'') ''text'' ''string'' True False (JStr []))]]
         @ (if ch_isText ch
            then [All (message_objs e pre True),
                  Await (AddReceive (namespace e @ ''.'' @ pre @ ''.message''))]
            else [])
         @ [All [JsonPush (pre @ ''.json'') (channel_json ch),
                 SetStateAck (pre @ ''.memberCount'') (JNum (int (length (ch_members ch)))),
                 SetStateAck (pre @ ''.members'')
                   (JStr (join_comma (map cm_displayName (ch_members ch))))]])"

text \<open>
  The loop \<open>for (const parents of [true, false]) for (const [, channel] of channels)\<close>
  with its \<open>continue\<close>: a channel is skipped in the first round when it has a parent and
  in the second round when it has none. The loop head is the same in both versions.
\<close>

definition skipped :: "bool \<Rightarrow> channel \<Rightarrow> bool" where
  "skipped parents ch = (parents \<and> has_parent ch \<or> \<not> parents \<and> \<not> has_parent ch)"

definition two_waves :: "(bool \<Rightarrow> channel \<Rightarrow> 'a list) \<Rightarrow> channel list \<Rightarrow> 'a list" where
  "two_waves body channels =
     concat (map (\<lambda>parents.
       concat (map (\<lambda>ch. if skipped parents ch then [] else body parents ch) channels))
       [True, False])"

text \<open>The channels in the order in which the loop handles them.\<close>

definition channel_order :: "channel list \<Rightarrow> (bool \<times> channel) list" where
  "channel_order channels = two_waves (\<lambda>parents ch. [(parents, ch)]) channels"

subsection \<open>Guilds\<close>

text \<open>The body of the loop over the guilds, for a guild whose fetch succeeded.\<close>

definition guild_stmts :: "env \<Rightarrow> guild \<Rightarrow> stmt list" where
  "guild_stmts e g =
     [Await (ExtendCached (''servers.'' @ g_id g) (channel_obj (g_name g))),
      All [ExtendCached (''servers.'' @ g_id g @ ''.members'')
             (channel_obj (translate e ''Members'')),
           ExtendCached (''servers.'' @ g_id g @ ''.channels'')
             (channel_obj (translate e ''Channels''))]]
     @ (case g_members g of
          None \<Rightarrow> [Raise]
        | Some members \<Rightarrow>
            concat (map (member_stmts e g) members)
            @ (case g_channels g of
                 None \<Rightarrow> [Raise]
               | Some channels \<Rightarrow> two_waves (channel_stmts e g) channels))"

text \<open>
  The ids added to \<open>knownServersAndChannelsIds\<close>: the guild and every channel the loop
  handles.
\<close>

definition guild_known :: "env \<Rightarrow> guild \<Rightarrow> string list" where
  "guild_known e g =
     (namespace e @ ''.servers.'' @ g_id g)
     # (case g_members g of
          None \<Rightarrow> []
        | Some _ \<Rightarrow>
            (case g_channels g of
               None \<Rightarrow> []
             | Some channels \<Rightarrow>
                 map (\<lambda>(parents, ch). namespace e @ ''.'' @ channelIdPrefix g parents ch)
                   (channel_order channels)))"

definition knownServersAndChannelsIds :: "env \<Rightarrow> guild list \<Rightarrow> string list" where
  "knownServersAndChannelsIds e gs = concat (map (guild_known e) gs)"

subsection \<open>Users\<close>

text \<open>
  \<open>Collection.set(key, value)\<close>: an existing key keeps its place and gets the new value, a
  new key goes last.
\<close>

fun coll_set :: "'k \<Rightarrow> 'v \<Rightarrow> ('k \<times> 'v) list \<Rightarrow> ('k \<times> 'v) list" where
  "coll_set k v [] = [(k, v)]"
| "coll_set k v ((k', v') # kvs) = (if k' = k then (k, v) # kvs else (k', v') # coll_set k v kvs)"

text \<open>\<open>allServersUsers\<close>: every member's user but the bot itself, over all fetched guilds.\<close>

definition remember_users ::
  "string \<Rightarrow> (string \<times> remote_user \<times> presence option) list \<Rightarrow> guild
     \<Rightarrow> (string \<times> remote_user \<times> presence option) list" where
  "remember_users botId acc g =
     foldl (\<lambda>us m. if ru_id (mem_user m) \<noteq> botId
                    then coll_set (ru_id (mem_user m)) (mem_user m, mem_presence m) us else us)
       acc (case g_members g of None \<Rightarrow> [] | Some members \<Rightarrow> members)"

definition allServersUsers :: "string \<Rightarrow> guild list \<Rightarrow> (string \<times> remote_user \<times> presence option) list" where
  "allServersUsers botId gs = foldl (remember_users botId) [] gs"

definition user_container :: "remote_user \<Rightarrow> jsval" where
  "user_container u =
     JObj [(''type'', JStr ''channel''),
           (''common'', JObj [(''name'', JStr (ru_tag u))]),
           (''native'', JObj [(''userId'', JStr (ru_id u))])]"

definition user_json :: "remote_user \<Rightarrow> presence_result \<Rightarrow> jsval" where
  "user_json u ps =
     JObj [(''id'', JStr (ru_id u)),
           (''tag'', JStr (ru_tag u)),
           (''activityName'', JStr (pr_activityName ps)),
           (''activityType'', JStr (pr_activityType ps)),
           (''avatarUrl'', JStr (ru_avatarUrl u)),
           (''bot'', JBool (ru_bot u)),
           (''status'', JStr (pr_status ps))]"

text \<open>The first half of the loop body for a user: the container and its fifteen state objects.\<close>

definition user_objs :: "env \<Rightarrow> remote_user \<Rightarrow> stmt list" where
  "user_objs e u =
     (let pre = ''users.'' @ ru_id u; tr = translate e
      in [Await (ExtendCached pre (user_container u)),
          All ([ExtendCached (pre @ ''.json'')
                  (state_obj (tr ''JSON data'') ''json'' ''string'' True False (JStr [])),
                ExtendCached (pre @ ''.tag'')
                  (state_obj (tr ''User tag'') ''text'' ''string'' True False (JStr []))]
               @ message_objs e pre False
               @ [ExtendCached (pre @ ''.avatarUrl'')
                    (state_obj (tr ''Avatar'') ''media.link'' ''string'' True False (JStr [])),
                  ExtendCached (pre @ ''.bot'')
                    (state_obj (tr ''Bot'') ''indicator'' ''boolean'' True False (JBool False)),
                  ExtendCached (pre @ ''.status'')
                    (state_obj (tr ''Status'') ''text'' ''string'' True False (JStr [])),
                  ExtendCached (pre @ ''.activityType'')
                    (state_obj (tr ''Activity type'') ''text'' ''string'' True False (JStr [])),
                  ExtendCached (pre @ ''.activityName'')
                    (state_obj (tr ''Activity name'') ''text'' ''string'' True False (JStr []))]),
          Await (AddReceive (namespace e @ ''.'' @ pre @ ''.message''))])"

text \<open>
  The second half: the snapshot is built from the result \<open>ps\<close> of the awaited presence
  projection, then the snapshot, the three leaf values and a second presence projection
  are started together.
\<close>

definition user_values :: "env \<Rightarrow> remote_user \<Rightarrow> presence option \<Rightarrow> presence_result \<Rightarrow> stmt list" where
  "user_values e u presence ps =
     (let pre = ''users.'' @ ru_id u
      in [All [JsonPush (pre @ ''.json'') (user_json u ps),
               SetStateAck (pre @ ''.tag'') (JStr (ru_tag u)),
               SetStateAck (pre @ ''.avatarUrl'') (JStr (ru_avatarUrl u)),
               SetStateAck (pre @ ''.bot'') (JBool (ru_bot u)),
               Presence (ru_id u) presence False]])"

definition process_user ::
  "env \<Rightarrow> remote_user \<times> presence option \<Rightarrow> adapter \<Rightarrow> unit result \<times> adapter" where
  "process_user e up a =
     (case up of
        (u, presence) \<Rightarrow>
          (case run e (user_objs e u) a of
             (Throws, a1) \<Rightarrow> (Throws, a1)
           | (Returns _, a1) \<Rightarrow>
               (case updateUserPresence e (ru_id u) presence True a1 of
                  (ps, a2) \<Rightarrow> run e (user_values e u presence ps) a2)))"

fun process_users ::
  "env \<Rightarrow> (string \<times> remote_user \<times> presence option) list \<Rightarrow> adapter \<Rightarrow> unit result \<times> adapter" where
  "process_users e [] a = (Returns (), a)"
| "process_users e (x # xs) a =
     (case process_user e (snd x) a of
        (Throws, a1) \<Rightarrow> (Throws, a1)
      | (Returns _, a1) \<Rightarrow> process_users e xs a1)"

subsection \<open>The sweep\<close>

definition strip_prefix :: "string \<Rightarrow> string \<Rightarrow> string option" where
  "strip_prefix p s = (if prefix p s then Some (drop (length p) s) else None)"

text \<open>
  \<open>reServersChannels\<close> is \<open>^<name>\.<instance>\.servers\.((\d+)(\.channels\.(\d+)){0,2})$\<close>;
  the result is the group \<open>m[1]\<close>, the id path after \<open>servers.\<close>. The namespace is
  \<open><name>.<instance>\<close>, the adapter name followed by a number.
\<close>

definition is_idPath :: "string \<Rightarrow> bool" where
  "is_idPath s =
     (case split_dots s of
        [g] \<Rightarrow> digits g
      | [g, c1, ch] \<Rightarrow> digits g \<and> c1 = ''channels'' \<and> digits ch
      | [g, c1, ch, c2, ch2] \<Rightarrow>
          digits g \<and> c1 = ''channels'' \<and> digits ch \<and> c2 = ''channels'' \<and> digits ch2
      | _ \<Rightarrow> False)"

definition match_reServersChannels :: "string \<Rightarrow> string \<Rightarrow> string option" where
  "match_reServersChannels ns ident =
     (case strip_prefix (ns @ ''.servers.'') ident of
        None \<Rightarrow> None
      | Some idPath \<Rightarrow> if is_idPath idPath then Some idPath else None)"

text \<open>\<open>reUsers\<close> is \<open>^<name>\.<instance>\.users\.(\d+)$\<close>.\<close>

definition match_reUsers :: "string \<Rightarrow> string \<Rightarrow> string option" where
  "match_reUsers ns ident =
     (case strip_prefix (ns @ ''.users.'') ident of
        None \<Rightarrow> None
      | Some userId \<Rightarrow> if digits userId then Some userId else None)"

text \<open>
  One row that matched and is not known: its entries in \<open>messageReceiveStates\<close> and in the
  snapshot cache are deleted, then the objects are deleted recursively. \<open>kind\<close> is
  \<open>servers\<close> or \<open>users\<close>.
\<close>

definition forget :: "env \<Rightarrow> string \<Rightarrow> string \<Rightarrow> adapter \<Rightarrow> unit result \<times> adapter" where
  "forget e kind idPath a =
     delObjectAsyncCached e (kind @ ''.'' @ idPath) True
       (a\<lparr>messageReceiveStates :=
            messageReceiveStates a - {namespace e @ ''.'' @ kind @ ''.'' @ idPath @ ''.message''},
          jsonStateCache :=
            (jsonStateCache a)(namespace e @ ''.'' @ kind @ ''.'' @ idPath @ ''.json'' := None)\<rparr>)"

fun sweep_servers :: "env \<Rightarrow> string list \<Rightarrow> string list \<Rightarrow> adapter \<Rightarrow> unit result \<times> adapter" where
  "sweep_servers e known [] a = (Returns (), a)"
| "sweep_servers e known (ident # rows) a =
     (case match_reServersChannels (namespace e) ident of
        None \<Rightarrow> sweep_servers e known rows a
      | Some idPath \<Rightarrow>
          if ident \<in> set known then sweep_servers e known rows a
          else
            (case forget e ''servers'' idPath a of
               (Throws, a1) \<Rightarrow> (Throws, a1)
             | (Returns _, a1) \<Rightarrow> sweep_servers e known rows a1))"

fun sweep_users :: "env \<Rightarrow> string list \<Rightarrow> string list \<Rightarrow> adapter \<Rightarrow> unit result \<times> adapter" where
  "sweep_users e users [] a = (Returns (), a)"
| "sweep_users e users (ident # rows) a =
     (case match_reUsers (namespace e) ident of
        None \<Rightarrow> sweep_users e users rows a
      | Some userId \<Rightarrow>
          if userId \<in> set users then sweep_users e users rows a
          else
            (case forget e ''users'' userId a of
               (Throws, a1) \<Rightarrow> (Throws, a1)
             | (Returns _, a1) \<Rightarrow> sweep_users e users rows a1))"

definition sweep ::
  "env \<Rightarrow> store_listing \<Rightarrow> string list \<Rightarrow> string list \<Rightarrow> adapter \<Rightarrow> unit result \<times> adapter" where
  "sweep e listing known users a =
     (case servers_rows listing of
        None \<Rightarrow> (Throws, a)
      | Some srows \<Rightarrow>
          (case sweep_servers e known srows a of
             (Throws, a1) \<Rightarrow> (Throws, a1)
           | (Returns _, a1) \<Rightarrow>
               (case users_rows listing of
                  None \<Rightarrow> (Throws, a1)
                | Some urows \<Rightarrow> sweep_users e users urows a1)))"

subsection \<open>The reconciliation pass\<close>

definition fetched :: "guild option list \<Rightarrow> guild list" where
  "fetched gs = concat (map (\<lambda>g. case g of None \<Rightarrow> [] | Some x \<Rightarrow> [x]) gs)"

text \<open>
  The walk of updateGuilds (compiled version): the guilds whose fetch succeeded, then the
  users. A guild whose fetch rejects is skipped.
\<close>

definition walk :: "env \<Rightarrow> string \<Rightarrow> guild list \<Rightarrow> adapter \<Rightarrow> unit result \<times> adapter" where
  "walk e botId gs a =
     (case run e (concat (map (guild_stmts e) gs)) a of
        (Throws, a1) \<Rightarrow> (Throws, a1)
      | (Returns _, a1) \<Rightarrow> process_users e (allServersUsers botId gs) a1)"

text \<open>
  updateGuilds. Without a client user it throws. The \<open>unloaded\<close> flag is read at the
  checkpoints of the source; it is set only by the unload handler, so within one pass it
  is the value found at the first checkpoint, where a set flag ends the pass at once.
\<close>

definition updateGuilds :: "env \<Rightarrow> remote \<Rightarrow> store_listing \<Rightarrow> adapter \<Rightarrow> unit result \<times> adapter" where
  "updateGuilds e r listing a =
     (case client_user r of
        None \<Rightarrow> (Throws, a)
      | Some botId \<Rightarrow>
          if unloaded a then (Returns (), a)
          else
            (case guilds r of
               None \<Rightarrow> (Throws, a)
             | Some gs \<Rightarrow>
                 (case walk e botId (fetched gs) a of
                    (Throws, a1) \<Rightarrow> (Throws, a1)
                  | (Returns _, a1) \<Rightarrow>
                      sweep e listing (knownServersAndChannelsIds e (fetched gs))
                        (map fst (allServersUsers botId (fetched gs))) a1)))"

subsection \<open>What a pass asks of the store\<close>

text \<open>
  The operations of a statement list in the order in which they are started, and the
  operations of the loops over the guilds and over the users. The user loop builds its
  snapshot from the result of a presence projection, which does not change the kind or the
  id of an operation; \<open>user_ops\<close> lists the operations for the empty result.
\<close>

fun ops_of :: "stmt list \<Rightarrow> op list" where
  "ops_of [] = []"
| "ops_of (Await x # rest) = x # ops_of rest"
| "ops_of (All xs # rest) = xs @ ops_of rest"
| "ops_of (Raise # rest) = ops_of rest"

definition guild_ops :: "env \<Rightarrow> guild list \<Rightarrow> op list" where
  "guild_ops e gs = ops_of (concat (map (guild_stmts e) gs))"

definition user_ops :: "env \<Rightarrow> (string \<times> remote_user \<times> presence option) list \<Rightarrow> op list" where
  "user_ops e us =
     concat (map (\<lambda>(_, u, presence).
       ops_of (user_objs e u) @ ops_of (user_values e u presence no_presence)) us)"

text \<open>
  The definitions asked for through extendObjectAsyncCached, the snapshots written through
  the snapshot cache by the guild loop, and the leaf values written with a plain
  \<open>setStateAsync(id, value, true)\<close>.
\<close>

definition object_requests :: "env \<Rightarrow> string \<Rightarrow> guild list \<Rightarrow> (string \<times> jsval) list" where
  "object_requests e botId gs =
     concat (map (\<lambda>x. case x of ExtendCached ident obj \<Rightarrow> [(ident, obj)] | _ \<Rightarrow> [])
       (guild_ops e gs @ user_ops e (allServersUsers botId gs)))"

definition snapshot_requests :: "env \<Rightarrow> guild list \<Rightarrow> (string \<times> jsval) list" where
  "snapshot_requests e gs =
     concat (map (\<lambda>x. case x of JsonAwait ident json \<Rightarrow> [(ident, json)]
                             | JsonPush ident json \<Rightarrow> [(ident, json)] | _ \<Rightarrow> [])
       (guild_ops e gs))"

definition leaf_writes :: "env \<Rightarrow> string \<Rightarrow> guild list \<Rightarrow> store_call list" where
  "leaf_writes e botId gs =
     concat (map (\<lambda>x. case x of SetStateAck ident v \<Rightarrow> [SetState ident v True] | _ \<Rightarrow> [])
       (guild_ops e gs @ user_ops e (allServersUsers botId gs)))"

text \<open>
  The writes below \<open>users.\<close> made by updateUserPresence and by the snapshot of a user:
  the three presence leaves and \<open>users.<id>.json\<close>.
\<close>

definition is_user_write :: "store_call \<Rightarrow> bool" where
  "is_user_write c =
     (case c of
        SetState ident v flag \<Rightarrow>
          flag \<and> prefix ''users.'' ident
          \<and> (suffix ''.status'' ident \<or> suffix ''.activityName'' ident
              \<or> suffix ''.activityType'' ident \<or> suffix ''.json'' ident)
      | _ \<Rightarrow> False)"

subsection \<open>Cache states between two passes\<close>

text \<open>
  \<open>fits\<close>: an operation belongs to the requests \<open>X\<close> (definitions), \<open>J\<close>
  (snapshots) and \<open>L\<close> (leaf writes). \<open>warm\<close>: both caches hold every request.
  \<open>quiet\<close>: the store calls added between two adapter states are leaf writes or
  writes of a user's presence and snapshot.
\<close>

definition fits :: "(string \<times> jsval) set \<Rightarrow> (string \<times> jsval) set \<Rightarrow> store_call set \<Rightarrow> op \<Rightarrow> bool" where
  "fits X J L x =
     (case x of
        ExtendCached ident obj \<Rightarrow> (ident, obj) \<in> X
      | SetStateAck ident v \<Rightarrow> SetState ident v True \<in> L
      | JsonAwait ident json \<Rightarrow> (ident, json) \<in> J
      | JsonPush ident json \<Rightarrow> (ident, json) \<in> J \<or> (prefix ''users.'' ident \<and> suffix ''.json'' ident)
      | AddReceive key \<Rightarrow> True
      | Presence u p skip \<Rightarrow> True)"

definition warm :: "env \<Rightarrow> (string \<times> jsval) set \<Rightarrow> (string \<times> jsval) set \<Rightarrow> adapter \<Rightarrow> bool" where
  "warm e X J a =
     ((\<forall>ident obj. (ident, obj) \<in> X \<longrightarrow> extendObjectCache a ident = Some obj)
      \<and> (\<forall>ident json. (ident, json) \<in> J \<longrightarrow>
            jsonStateCache a (namespace e @ ''.'' @ ident) = Some json))"

definition servers_only :: "(string \<times> jsval) set \<Rightarrow> bool" where
  "servers_only J = (\<forall>ident json. (ident, json) \<in> J \<longrightarrow> prefix ''servers.'' ident)"

definition quiet :: "store_call set \<Rightarrow> adapter \<Rightarrow> adapter \<Rightarrow> bool" where
  "quiet L a a' =
     (\<exists>new. store_calls a' = store_calls a @ new \<and> (\<forall>c \<in> set new. c \<in> L \<or> is_user_write c))"

text \<open>
  The cache keys an operation settles, and \<open>pwarm\<close>: the caches hold the requests
  for the keys settled so far.
\<close>

definition kx :: "op \<Rightarrow> string set" where
  "kx x = (case x of ExtendCached ident obj \<Rightarrow> {ident} | _ \<Rightarrow> {})"

definition kj :: "op \<Rightarrow> string set" where
  "kj x = (case x of JsonAwait ident json \<Rightarrow> {ident} | JsonPush ident json \<Rightarrow> {ident} | _ \<Rightarrow> {})"

definition kxs :: "op list \<Rightarrow> string set" where
  "kxs xs = (\<Union>x \<in> set xs. kx x)"

definition kjs :: "op list \<Rightarrow> string set" where
  "kjs xs = (\<Union>x \<in> set xs. kj x)"

definition pwarm ::
  "env \<Rightarrow> (string \<times> jsval) set \<Rightarrow> (string \<times> jsval) set \<Rightarrow> string set \<Rightarrow> string set \<Rightarrow> adapter \<Rightarrow> bool" where
  "pwarm e X J Kx Kj a =
     ((\<forall>ident obj. (ident, obj) \<in> X \<and> ident \<in> Kx \<longrightarrow> extendObjectCache a ident = Some obj)
      \<and> (\<forall>ident json. (ident, json) \<in> J \<and> ident \<in> Kj \<longrightarrow>
            jsonStateCache a (namespace e @ ''.'' @ ident) = Some json))"



text \<open>
  The ids the sweep deletes for a listing, and \<open>untouched\<close>: a step that changes the
  caches only at those ids and issues only recursive deletes.
\<close>

definition stale_servers :: "env \<Rightarrow> string list \<Rightarrow> string list \<Rightarrow> string list" where
  "stale_servers e known rows =
     concat (map (\<lambda>ident. case match_reServersChannels (namespace e) ident of
                             None \<Rightarrow> []
                           | Some idPath \<Rightarrow> if ident \<in> set known then [] else [''servers.'' @ idPath])
       rows)"

definition stale_users :: "env \<Rightarrow> string list \<Rightarrow> string list \<Rightarrow> string list" where
  "stale_users e users rows =
     concat (map (\<lambda>ident. case match_reUsers (namespace e) ident of
                             None \<Rightarrow> []
                           | Some userId \<Rightarrow> if userId \<in> set users then [] else [''users.'' @ userId])
       rows)"

definition deleted_ids :: "env \<Rightarrow> store_listing \<Rightarrow> string list \<Rightarrow> string list \<Rightarrow> string list" where
  "deleted_ids e listing known users =
     (case servers_rows listing of None \<Rightarrow> [] | Some rows \<Rightarrow> stale_servers e known rows)
     @ (case users_rows listing of None \<Rightarrow> [] | Some rows \<Rightarrow> stale_users e users rows)"

definition untouched :: "env \<Rightarrow> string list \<Rightarrow> adapter \<Rightarrow> adapter \<Rightarrow> bool" where
  "untouched e ds a a' =
     ((\<forall>k. (\<forall>d \<in> set ds. \<not> prefix d k) \<longrightarrow> extendObjectCache a' k = extendObjectCache a k)
      \<and> (\<forall>k. (\<forall>d \<in> set ds. k \<noteq> namespace e @ ''.'' @ d @ ''.json'') \<longrightarrow>
             jsonStateCache a' k = jsonStateCache a k)
      \<and> (\<exists>new. store_calls a' = store_calls a @ new \<and> (\<forall>c \<in> set new. \<exists>i. c = DelObject i True)))"

subsection \<open>A concrete server\<close>

text \<open>
  One guild with the bot and one more member, a category and a text channel below it (the
  text channel is listed first). The store lists two rows of a server the bot has left
  and one row of a user no longer seen; the adapter still holds cache entries of that
  server. \<open>listing2\<close> is the store after the first pass.
\<close>

definition bot_user :: remote_user where
  "bot_user = \<lparr>ru_id = ''9'', ru_tag = ''bot#0001'', ru_bot = True, ru_avatarUrl = ''a9''\<rparr>"

definition alice :: remote_user where
  "alice = \<lparr>ru_id = ''5'', ru_tag = ''alice#0005'', ru_bot = False, ru_avatarUrl = ''a5''\<rparr>"

definition no_voice :: voice_state where
  "no_voice = \<lparr>vs_channel = None, vs_selfDeaf = False, vs_serverDeaf = False,
               vs_selfMute = False, vs_serverMute = False\<rparr>"

definition bot_member :: member where
  "bot_member = \<lparr>mem_id = ''9'', mem_user = bot_user, mem_displayName = ''Bot'', mem_roles = [],
                 mem_joinedTimestamp = Some 1, mem_voice = no_voice, mem_presence = None\<rparr>"

definition alice_member :: member where
  "alice_member = \<lparr>mem_id = ''5'', mem_user = alice, mem_displayName = ''Alice'',
                   mem_roles = [''admin''], mem_joinedTimestamp = Some 2, mem_voice = no_voice,
                   mem_presence = Some playing_chess\<rparr>"

definition category2 :: channel where
  "category2 = \<lparr>ch_id = ''2'', ch_name = ''Rooms'', ch_type = ''GUILD_CATEGORY'', ch_parentId = None,
                ch_parentName = None, ch_isText = False, ch_isVoice = False, ch_members = []\<rparr>"

definition general3 :: channel where
  "general3 = \<lparr>ch_id = ''3'', ch_name = ''general'', ch_type = ''GUILD_TEXT'', ch_parentId = Some ''2'',
               ch_parentName = Some ''Rooms'', ch_isText = True, ch_isVoice = False,
               ch_members = [\<lparr>cm_id = ''5'', cm_tag = ''alice#0005'', cm_displayName = ''Alice''\<rparr>]\<rparr>"

definition guild1 :: guild where
  "guild1 = \<lparr>g_id = ''1'', g_name = ''Home'', g_members = Some [bot_member, alice_member],
             g_channels = Some [general3, category2]\<rparr>"

definition remote1 :: remote where
  "remote1 = \<lparr>client_user = Some ''9'', guilds = Some [Some guild1]\<rparr>"

definition listing1 :: store_listing where
  "listing1 = \<lparr>servers_rows = Some [''discord.0.servers.1'', ''discord.0.servers.1.members'',
                                     ''discord.0.servers.7'', ''discord.0.servers.7.channels.8''],
               users_rows = Some [''discord.0.users.5'', ''discord.0.users.6'']\<rparr>"

definition listing2 :: store_listing where
  "listing2 = \<lparr>servers_rows = Some [''discord.0.servers.1'', ''discord.0.servers.1.members''],
               users_rows = Some [''discord.0.users.5'']\<rparr>"

definition adapter1 :: adapter where
  "adapter1 = adapter0\<lparr>
     extendObjectCache :=
       [''servers.7.channels.8'' \<mapsto> channel_obj ''old'',
        ''servers.7.channels.8.json'' \<mapsto> channel_obj ''old json''],
     jsonStateCache := [''discord.0.servers.7.channels.8.json'' \<mapsto> JObj []],
     messageReceiveStates := {''discord.0.servers.7.channels.8.message''}\<rparr>"

definition pass1 :: "unit result \<times> adapter" where
  "pass1 = updateGuilds env0 remote1 listing1 adapter1"

definition pass2 :: "unit result \<times> adapter" where
  "pass2 = updateGuilds env0 remote1 listing2 (snd pass1)"

section \<open>Theorems\<close>

subsection \<open>The definition cache\<close>

lemma call_store_calls:
  "store_calls (snd (call_store e c a)) = store_calls a @ [c]"
  by (simp add: call_store_def)



text \<open>
  Claim C9. A recursive cached delete removes a definition-cache entry exactly when its
  key starts with the given id as a string: there is no test for a path-segment boundary,
  so the entries of \<open>servers.1234\<close> go too when \<open>servers.123\<close> is deleted. Every entry
  whose key does not start with the id is left as it was. The function has the same text
  in both versions.
\<close>

theorem delObjectAsyncCached_recursive_purges_by_prefix:
  "extendObjectCache (snd (delObjectAsyncCached e ident True a)) id2 =
     (if prefix ident id2 then None else extendObjectCache a id2)"
  by (simp add: delObjectAsyncCached_def call_store_def)

theorem delObjectAsyncCached_recursive_purges_by_prefix_witness:
  "extendObjectCache
     (snd (delObjectAsyncCached env0 ''servers.123'' True
        (adapter0\<lparr>extendObjectCache :=
           [''servers.1234'' \<mapsto> channel_obj ''Other'', ''servers.124'' \<mapsto> channel_obj ''Kept'']\<rparr>)))
     ''servers.1234'' = None
   \<and> extendObjectCache
     (snd (delObjectAsyncCached env0 ''servers.123'' True
        (adapter0\<lparr>extendObjectCache :=
           [''servers.1234'' \<mapsto> channel_obj ''Other'', ''servers.124'' \<mapsto> channel_obj ''Kept'']\<rparr>)))
     ''servers.124'' = Some (channel_obj ''Kept'')"
  using delObjectAsyncCached_recursive_purges_by_prefix
          [of env0 "''servers.123''" "adapter0\<lparr>extendObjectCache :=
             [''servers.1234'' \<mapsto> channel_obj ''Other'', ''servers.124'' \<mapsto> channel_obj ''Kept'']\<rparr>"
             "''servers.1234''"]
        delObjectAsyncCached_recursive_purges_by_prefix
          [of env0 "''servers.123''" "adapter0\<lparr>extendObjectCache :=
             [''servers.1234'' \<mapsto> channel_obj ''Other'', ''servers.124'' \<mapsto> channel_obj ''Kept'']\<rparr>"
             "''servers.124''"]
  by simp

subsection \<open>Authorization\<close>

lemma or_all_false: "or_grant all_false g = g"
  by (simp add: or_grant_def all_false_def)

text \<open>
  The loop over the roles, with its accumulator that starts undefined or as the user
  grant, computes the OR of the first-listed grants of the roles.
\<close>

lemma role_loop:
  "foldl (role_step cfg gid) given roles =
     (let rgs = List.map_filter
                  (\<lambda>key. map_option snd (find (\<lambda>ar. fst ar = key) (authorizedServerRoles cfg)))
                  (map (\<lambda>roleId. gid @ ''|'' @ roleId) roles)
      in if given = None \<and> rgs = [] then None
         else Some (foldl or_grant (case given of None \<Rightarrow> all_false | Some g \<Rightarrow> g) rgs))"
proof (induction roles arbitrary: given)
  case Nil
  then show ?case by (cases given) (simp_all add: List.map_filter_simps)
next
  case (Cons r rs)
  show ?case
  proof (cases "find (\<lambda>ar. fst ar = gid @ ''|'' @ r) (authorizedServerRoles cfg)")
    case None
    then show ?thesis using Cons.IH[of given]
      by (simp add: role_step_def List.map_filter_simps Let_def)
  next
    case (Some ar)
    then show ?thesis using Cons.IH[of "role_step cfg gid given r"]
      by (cases given) (simp_all add: role_step_def List.map_filter_simps Let_def or_all_false)
  qed
qed

text \<open>
  Claim C4 (as amended). checkUserAuthorization returns true whenever authorization is
  globally disabled. Otherwise it OR-merges, per field, the principal's user-level grant
  (or an all-false default) with, for each of the principal's (server, role) pairs, the
  first role grant listed for that pair; it returns false if neither a user-level grant
  nor such a role grant exists; it returns true if one exists and no capability was
  requested; otherwise it returns true exactly when every requested capability is true in
  the merged grant.
\<close>

theorem checkUserAuthorization_first_match_policy:
  "checkUserAuthorization cfg user required =
     policy (enableAuthorization cfg) (user_grant cfg user) (first_role_grants cfg user) required"
proof (cases user)
  case (User uid)
  then show ?thesis
    by (auto simp: checkUserAuthorization_def policy_def user_grant_def first_role_grants_def
        List.map_filter_simps Let_def split: option.splits)
next
  case (GuildMember uid gid roles)
  show ?thesis
  proof (cases "authorizedServerRoles cfg = []")
    case True
    have "first_role_grants cfg user = []"
      using True GuildMember by (simp add: first_role_grants_def List.map_filter_def)
    then show ?thesis using True GuildMember
      by (auto simp: checkUserAuthorization_def policy_def user_grant_def Let_def
          split: option.splits)
  next
    case False
    then show ?thesis using GuildMember role_loop[of cfg gid "user_grant cfg user" roles]
      by (auto simp: checkUserAuthorization_def policy_def user_grant_def first_role_grants_def
          Let_def split: option.splits)
  qed
qed

text \<open>
  A member of server 1 with role 2 asks for getStates; the first entry for \<open>1|2\<close> grants
  nothing, so the request is refused.
\<close>

theorem checkUserAuthorization_first_match_policy_witness:
  "checkUserAuthorization cfg_dup (GuildMember ''7'' ''1'' [''2'']) (Some want_get) = False
   \<and> first_role_grants cfg_dup (GuildMember ''7'' ''1'' [''2'']) =
        [\<lparr>getStates = False, setStates = False, useText2command = False\<rparr>]"
  using checkUserAuthorization_first_match_policy
          [of cfg_dup "GuildMember ''7'' ''1'' [''2'']" "Some want_get"]
  by (simp add: policy_def user_grant_def first_role_grants_def cfg_dup_def want_get_def
      List.map_filter_simps or_grant_def all_false_def)

text \<open>
  Claim C4 as stated fails where two role grants are listed for one (server, role) pair:
  merging every matching role grant would allow the request that the function refuses.
\<close>

theorem checkUserAuthorization_every_role_grant_counterexample:
  "checkUserAuthorization cfg_dup (GuildMember ''7'' ''1'' [''2'']) (Some want_get) = False
   \<and> policy (enableAuthorization cfg_dup) (user_grant cfg_dup (GuildMember ''7'' ''1'' [''2'']))
        (every_matching_role_grant cfg_dup (GuildMember ''7'' ''1'' [''2''])) (Some want_get) = True"
  by (simp add: checkUserAuthorization_def cfg_dup_def want_get_def role_step_def policy_def
      user_grant_def every_matching_role_grant_def or_grant_def all_false_def)

subsection \<open>The command router\<close>

lemma indexOf_notin: "x \<notin> set v \<Longrightarrow> indexOf v x = -1"
  by (induction v) (auto simp: Let_def)

lemma indexOf_append: "x \<notin> set r \<Longrightarrow> indexOf (r @ x # t) x = int (length r)"
  by (induction r) (auto simp: Let_def)

lemma split_pipe_cut:
  "CHR ''|'' \<notin> set r \<Longrightarrow> r \<noteq> [] \<Longrightarrow> split_pipe (r @ CHR ''|'' # t) = Some (r, t)"
  by (simp add: split_pipe_def indexOf_append Let_def)

lemma split_pipe_none:
  "CHR ''|'' \<notin> set v \<or> (\<exists>t. v = CHR ''|'' # t) \<Longrightarrow> split_pipe v = None"
  by (auto simp: split_pipe_def indexOf_notin Let_def)

lemma reply_cut:
  assumes "CHR ''|'' \<notin> set ref" "ref \<noteq> []"
  shows "reference_and_content c base (ref @ CHR ''|'' # content) = Returns (JStr ref, content)"
  using assms by (simp add: reference_and_content_def split_pipe_cut)

lemma reply_whole:
  assumes "CHR ''|'' \<notin> set v \<or> (\<exists>t. v = CHR ''|'' # t)"
      and "getForeignStateAsync c (base @ ''.messageId'') = Returns st"
  shows "reference_and_content c base v = Returns (mirrored_messageId st, v)"
  using assms by (simp add: reference_and_content_def split_pipe_none mirrored_messageId_def)

lemma send_payload_reply:
  "send_payload c tgt base ''sendReply'' v =
     (case reference_and_content c base v of
        Throws \<Rightarrow> (Throws, [])
      | Returns (ref, content) \<Rightarrow> reply_dispatch c tgt ref content)"
  by (simp add: send_payload_def reply_dispatch_def try_send_def split: result.splits)

lemma reply_is_not_file:
  "suffix ''.sendReply'' stateId \<Longrightarrow> \<not> suffix ''.sendFile'' stateId"
  using suffix_same_cases[of "''.sendReply''" stateId "''.sendFile''"]
  by (auto simp: suffix_to_prefix)

lemma send_payload_ts_reply:
  assumes "suffix ''.sendReply'' stateId"
  shows "send_payload_ts c tgt info stateId v =
     (case reference_and_content c (stateIdChannel_of stateId) v of
        Throws \<Rightarrow> (Throws, [])
      | Returns (ref, content) \<Rightarrow> reply_dispatch c tgt ref content)"
  using assms reply_is_not_file[OF assms]
  by (simp add: send_payload_ts_def reply_dispatch_def try_send_def split: result.splits)

text \<open>
  Claim C3 (as amended). For a sendReply write with a non-empty string value, on a ready
  client whose target resolves, in both versions: the value is cut at its first \<open>|\<close> when
  that \<open>|\<close> is not the first character, the left side being the replied-to message id and
  the right side the content; when the value has no \<open>|\<close> or starts with \<open>|\<close>, the id is
  read from the target's mirrored messageId state and the whole raw value is the content.
  If the id or the content is empty the dispatch returns false without a remote call;
  otherwise exactly one send with that reply reference and content is issued.
\<close>

theorem sendReply_cut_after_first_char_or_mirrored_id:
  assumes "isReady c" "v \<noteq> []"
  shows "(resolve_target c stateId = Some (tgt, base, ''sendReply'') \<longrightarrow>
           (v = ref @ ''|'' @ content \<and> CHR ''|'' \<notin> set ref \<and> ref \<noteq> [] \<longrightarrow>
              onSendStateChange c stateId (JStr v) = reply_dispatch c tgt (JStr ref) content)
         \<and> ((CHR ''|'' \<notin> set v \<or> hd v = CHR ''|'')
              \<and> getForeignStateAsync c (base @ ''.messageId'') = Returns st \<longrightarrow>
              onSendStateChange c stateId (JStr v) = reply_dispatch c tgt (mirrored_messageId st) v))
       \<and> (resolve_target_ts c stateId = Some (tgt, info) \<and> suffix ''.sendReply'' stateId \<longrightarrow>
           (v = ref @ ''|'' @ content \<and> CHR ''|'' \<notin> set ref \<and> ref \<noteq> [] \<longrightarrow>
              onSendStateChange_ts c stateId (JStr v) = reply_dispatch c tgt (JStr ref) content)
         \<and> ((CHR ''|'' \<notin> set v \<or> hd v = CHR ''|'')
              \<and> getForeignStateAsync c (stateIdChannel_of stateId @ ''.messageId'') = Returns st \<longrightarrow>
              onSendStateChange_ts c stateId (JStr v) = reply_dispatch c tgt (mirrored_messageId st) v))"
proof -
  have hdv: "\<exists>t. v = CHR ''|'' # t" if "hd v = CHR ''|''"
    using assms(2) that by (cases v) auto
  have whole: "CHR ''|'' \<notin> set v \<or> (\<exists>t. v = CHR ''|'' # t)"
    if "CHR ''|'' \<notin> set v \<or> hd v = CHR ''|''"
    using that hdv by blast
  have js: "onSendStateChange c stateId (JStr v) = send_payload c tgt base ''sendReply'' v"
    if "resolve_target c stateId = Some (tgt, base, ''sendReply'')"
    using assms that by (simp add: onSendStateChange_def)
  have ts: "onSendStateChange_ts c stateId (JStr v) = send_payload_ts c tgt info stateId v"
    if "resolve_target_ts c stateId = Some (tgt, info)"
    using assms that by (simp add: onSendStateChange_ts_def)
  have cut: "send_payload c tgt base ''sendReply'' v = reply_dispatch c tgt (JStr ref) content"
    and cut_ts: "suffix ''.sendReply'' stateId \<Longrightarrow>
         send_payload_ts c tgt info stateId v = reply_dispatch c tgt (JStr ref) content"
    if "v = ref @ ''|'' @ content" "CHR ''|'' \<notin> set ref" "ref \<noteq> []" for ref content
    using that by (simp_all add: send_payload_reply send_payload_ts_reply reply_cut)
  have fallback:
    "send_payload c tgt base ''sendReply'' v = reply_dispatch c tgt (mirrored_messageId st) v"
    if "CHR ''|'' \<notin> set v \<or> hd v = CHR ''|''"
       "getForeignStateAsync c (base @ ''.messageId'') = Returns st" for st
    using reply_whole[OF whole[OF that(1)] that(2)] by (simp add: send_payload_reply)
  have fallback_ts:
    "send_payload_ts c tgt info stateId v = reply_dispatch c tgt (mirrored_messageId st) v"
    if "CHR ''|'' \<notin> set v \<or> hd v = CHR ''|''"
       "getForeignStateAsync c (stateIdChannel_of stateId @ ''.messageId'') = Returns st"
       "suffix ''.sendReply'' stateId" for st
    using reply_whole[OF whole[OF that(1)] that(2)] that(3) by (simp add: send_payload_ts_reply)
  show ?thesis
    using js ts cut cut_ts fallback fallback_ts by metis
qed

lemma resolve0:
  "resolve_target client0 ''discord.0.servers.1.channels.2.sendReply'' =
     Some (TChannel chan0, ''discord.0.servers.1.channels.2'', ''sendReply'')"
  "resolve_target client0 ''discord.0.servers.1.channels.2.send'' =
     Some (TChannel chan0, ''discord.0.servers.1.channels.2'', ''send'')"
  by (simp_all add: resolve_target_def match_channel_state_def client0_def chan0_def digits_def
      is_send_action_def)

lemma resolve0_ts:
  "resolve_target_ts client0 ''discord.0.servers.1.channels.2.sendReply'' =
     Some (TChannel chan0, \<lparr>ti_guild = True, ti_channel = Some chan0, ti_user = None\<rparr>)"
  "resolve_target_ts client0 ''discord.0.servers.1.channels.2.send'' =
     Some (TChannel chan0, \<lparr>ti_guild = True, ti_channel = Some chan0, ti_user = None\<rparr>)"
  "stateIdChannel_of ''discord.0.servers.1.channels.2.sendReply'' = ''discord.0.servers.1.channels.2''"
  by (simp_all add: resolve_target_ts_def stateIdChannel_of_def client0_def chan0_def is_word_def
      Let_def)

lemma client0_fields:
  "isReady client0"
  "send_ok client0 t mo"
  "getForeignStateAsync client0 ''discord.0.servers.1.channels.2.messageId'' =
     Returns (Some (JStr ''111''))"
  "json_parse client0 ''{\"content\":\"hi\"}'' = Some (JObj [(''content'', JStr ''hi'')])"
  "json_parse client0 ''{content:}'' = None"
  by (simp_all add: client0_def)

text \<open>
  The two examples of the specification: \<open>222|hi there\<close> replies to message 222 whatever
  the mirrored id is, and \<open>hello\<close> replies to the mirrored message 111.
\<close>

theorem sendReply_cut_after_first_char_or_mirrored_id_witness:
  "isReady client0
   \<and> resolve_target client0 ''discord.0.servers.1.channels.2.sendReply'' =
       Some (TChannel chan0, ''discord.0.servers.1.channels.2'', ''sendReply'')
   \<and> onSendStateChange client0 ''discord.0.servers.1.channels.2.sendReply'' (JStr ''222|hi there'') =
       (Returns True, [Send (TChannel chan0) (reply_mo ''hi there'' (JStr ''222''))])
   \<and> onSendStateChange client0 ''discord.0.servers.1.channels.2.sendReply'' (JStr ''hello'') =
       (Returns True, [Send (TChannel chan0) (reply_mo ''hello'' (JStr ''111''))])
   \<and> onSendStateChange_ts client0 ''discord.0.servers.1.channels.2.sendReply'' (JStr ''222|hi there'') =
       (Returns True, [Send (TChannel chan0) (reply_mo ''hi there'' (JStr ''222''))])
   \<and> onSendStateChange_ts client0 ''discord.0.servers.1.channels.2.sendReply'' (JStr ''hello'') =
       (Returns True, [Send (TChannel chan0) (reply_mo ''hello'' (JStr ''111''))])"
proof -
  have ready: "isReady client0" by (simp add: client0_def)
  have sfx: "suffix ''.sendReply'' ''discord.0.servers.1.channels.2.sendReply''"
    by (simp add: suffix_to_prefix)
  have st: "getForeignStateAsync client0 (''discord.0.servers.1.channels.2'' @ ''.messageId'') =
              Returns (Some (JStr ''111''))"
    by (simp add: client0_def)
  note a = sendReply_cut_after_first_char_or_mirrored_id
             [where c = client0 and v = "''222|hi there''" and ref = "''222''"
                and content = "''hi there''"
                and stateId = "''discord.0.servers.1.channels.2.sendReply''"
                and tgt = "TChannel chan0" and base = "''discord.0.servers.1.channels.2''"
                and info = "\<lparr>ti_guild = True, ti_channel = Some chan0, ti_user = None\<rparr>", OF ready]
  note b = sendReply_cut_after_first_char_or_mirrored_id
             [where c = client0 and v = "''hello''" and st = "Some (JStr ''111'')"
                and stateId = "''discord.0.servers.1.channels.2.sendReply''"
                and tgt = "TChannel chan0" and base = "''discord.0.servers.1.channels.2''"
                and info = "\<lparr>ti_guild = True, ti_channel = Some chan0, ti_user = None\<rparr>", OF ready]
  have a1: "onSendStateChange client0 ''discord.0.servers.1.channels.2.sendReply''
              (JStr ''222|hi there'') =
              reply_dispatch client0 (TChannel chan0) (JStr ''222'') ''hi there''"
    and a2: "onSendStateChange_ts client0 ''discord.0.servers.1.channels.2.sendReply''
              (JStr ''222|hi there'') =
              reply_dispatch client0 (TChannel chan0) (JStr ''222'') ''hi there''"
    using a resolve0(1) resolve0_ts(1) sfx by simp_all
  have b1: "onSendStateChange client0 ''discord.0.servers.1.channels.2.sendReply'' (JStr ''hello'') =
              reply_dispatch client0 (TChannel chan0) (JStr ''111'') ''hello''"
    and b2: "onSendStateChange_ts client0 ''discord.0.servers.1.channels.2.sendReply'' (JStr ''hello'') =
              reply_dispatch client0 (TChannel chan0) (JStr ''111'') ''hello''"
    using b resolve0(1) resolve0_ts(1,3) sfx st by (simp_all add: mirrored_messageId_def)
  show ?thesis
    using ready resolve0(1) a1 a2 b1 b2 by (simp add: reply_dispatch_def client0_fields)
qed

text \<open>
  Claim C3 as stated fails for a value that starts with \<open>|\<close>: splitting \<open>|hello\<close> on its
  first \<open>|\<close> gives an empty message id, for which the claim demands false and no send;
  both versions reply to the mirrored message 111 with the content \<open>|hello\<close>.
\<close>

theorem sendReply_leading_pipe_counterexample:
  "onSendStateChange client0 ''discord.0.servers.1.channels.2.sendReply'' (JStr ''|hello'') =
     (Returns True, [Send (TChannel chan0) (reply_mo ''|hello'' (JStr ''111''))])
   \<and> onSendStateChange_ts client0 ''discord.0.servers.1.channels.2.sendReply'' (JStr ''|hello'') =
     (Returns True, [Send (TChannel chan0) (reply_mo ''|hello'' (JStr ''111''))])
   \<and> claimed_reply_parts ''|hello'' (JStr ''111'') = (JStr [], ''hello'')
   \<and> claimed_sendReply client0 (TChannel chan0) ''|hello'' (JStr ''111'') = (Returns False, [])"
proof -
  have sfx: "suffix ''.sendReply'' ''discord.0.servers.1.channels.2.sendReply''"
    by (simp add: suffix_to_prefix)
  have rc: "reference_and_content client0 ''discord.0.servers.1.channels.2'' ''|hello'' =
              Returns (JStr ''111'', ''|hello'')"
    by (simp add: reference_and_content_def split_pipe_def client0_fields)
  have "onSendStateChange client0 ''discord.0.servers.1.channels.2.sendReply'' (JStr ''|hello'') =
          reply_dispatch client0 (TChannel chan0) (JStr ''111'') ''|hello''"
    by (simp add: onSendStateChange_def resolve0 client0_fields send_payload_reply rc)
  moreover have
    "onSendStateChange_ts client0 ''discord.0.servers.1.channels.2.sendReply'' (JStr ''|hello'') =
          reply_dispatch client0 (TChannel chan0) (JStr ''111'') ''|hello''"
    by (simp add: onSendStateChange_ts_def resolve0_ts client0_fields
        send_payload_ts_reply[OF sfx] rc)
  ultimately show ?thesis
    by (simp add: reply_dispatch_def client0_fields claimed_reply_parts_def claimed_sendReply_def)
qed

lemma send_payload_send:
  "send_payload c tgt base ''send'' v = send_dispatch c tgt v"
  by (auto simp: send_payload_def send_dispatch_def looks_like_json_def json_mo_invalid_def
      try_send_def split: option.splits)





subsection \<open>Acknowledgement of command states\<close>

lemma suffix_clash:
  assumes "suffix x s" "s = ns @ y" "\<not> suffix x y" "\<not> suffix y x"
  shows False
proof -
  have "suffix y s" using assms(2) by (simp add: suffix_def)
  then show False using assms(1,3,4) suffix_same_cases by blast
qed

lemma not_bot_id:
  assumes "suffix x s" "\<not> suffix x y" "\<not> suffix y x"
  shows "s \<noteq> ns @ y"
  using assms suffix_clash by blast

lemma send_ids_are_not_bot_ids:
  assumes "suffix ''.send'' s \<or> suffix ''.sendFile'' s \<or> suffix ''.sendReply'' s
           \<or> suffix ''.sendReaction'' s"
  shows "s \<noteq> ns @ ''.bot.status''" "s \<noteq> ns @ ''.bot.activityType''"
        "s \<noteq> ns @ ''.bot.activityName''"
proof -
  have "s \<noteq> ns @ ''.bot.status''" if "suffix x s"
       "x \<in> {''.send'', ''.sendFile'', ''.sendReply'', ''.sendReaction''}" for x
    using that by (intro not_bot_id[of x]) (auto simp: suffix_to_prefix)
  then show "s \<noteq> ns @ ''.bot.status''" using assms by blast
  have "s \<noteq> ns @ ''.bot.activityType''" if "suffix x s"
       "x \<in> {''.send'', ''.sendFile'', ''.sendReply'', ''.sendReaction''}" for x
    using that by (intro not_bot_id[of x]) (auto simp: suffix_to_prefix)
  then show "s \<noteq> ns @ ''.bot.activityType''" using assms by blast
  have "s \<noteq> ns @ ''.bot.activityName''" if "suffix x s"
       "x \<in> {''.send'', ''.sendFile'', ''.sendReply'', ''.sendReaction''}" for x
    using that by (intro not_bot_id[of x]) (auto simp: suffix_to_prefix)
  then show "s \<noteq> ns @ ''.bot.activityName''" using assms by blast
qed

lemma onStateChange_send:
  assumes "prefix (namespace e @ ''.'') stateId"
      and "suffix ''.send'' stateId \<or> suffix ''.sendFile'' stateId \<or> suffix ''.sendReply'' stateId
           \<or> suffix ''.sendReaction'' stateId"
  shows "onStateChange e c stateId (Some \<lparr>val = v, ack = False\<rparr>) =
     (case onSendStateChange c stateId v of
        (Throws, calls) \<Rightarrow> (Throws, calls, [])
      | (Returns True, calls) \<Rightarrow>
          (if store_rejects e (SetState stateId v True) then Throws else Returns (),
           calls, [SetState stateId v True])
      | (Returns False, calls) \<Rightarrow> (Returns (), calls, []))"
  using assms send_ids_are_not_bot_ids[OF assms(2), of "namespace e"]
  by (auto simp: onStateChange_def split: prod.splits result.splits bool.splits)

text \<open>
  Claim C10. For an unacknowledged write to a send, sendFile, sendReply or sendReaction
  state of the adapter's namespace: when the value is not a string or is the empty string,
  onSendStateChange returns false without a remote call and onStateChange writes nothing;
  in every case the remote calls are those of the handler and the triggering state is
  re-written with \<open>ack: true\<close> exactly when the handler returned true.
\<close>

theorem send_states_acknowledged_iff_handler_true:
  assumes "prefix (namespace e @ ''.'') stateId"
      and "suffix ''.send'' stateId \<or> suffix ''.sendFile'' stateId \<or> suffix ''.sendReply'' stateId
           \<or> suffix ''.sendReaction'' stateId"
  shows "((\<forall>s. v \<noteq> JStr s) \<or> v = JStr [] \<longrightarrow>
            onSendStateChange c stateId v = (Returns False, [])
            \<and> onStateChange e c stateId (Some \<lparr>val = v, ack = False\<rparr>) = (Returns (), [], []))
       \<and> fst (snd (onStateChange e c stateId (Some \<lparr>val = v, ack = False\<rparr>))) =
            snd (onSendStateChange c stateId v)
       \<and> snd (snd (onStateChange e c stateId (Some \<lparr>val = v, ack = False\<rparr>))) =
            (if fst (onSendStateChange c stateId v) = Returns True
             then [SetState stateId v True] else [])"
proof -
  have guard: "onSendStateChange c stateId v = (Returns False, [])"
    if "(\<forall>s. v \<noteq> JStr s) \<or> v = JStr []"
    using that by (cases v) (auto simp: onSendStateChange_def)
  show ?thesis
    using guard
    by (auto simp: onStateChange_send[OF assms] split: prod.splits result.splits bool.splits)
qed

theorem send_states_acknowledged_iff_handler_true_witness:
  "prefix (namespace env0 @ ''.'') ''discord.0.servers.1.channels.2.send''
   \<and> suffix ''.send'' ''discord.0.servers.1.channels.2.send''
   \<and> onStateChange env0 client0 ''discord.0.servers.1.channels.2.send''
        (Some \<lparr>val = JNum 5, ack = False\<rparr>) = (Returns (), [], [])
   \<and> onStateChange env0 client0 ''discord.0.servers.1.channels.2.send''
        (Some \<lparr>val = JStr [], ack = False\<rparr>) = (Returns (), [], [])
   \<and> fst (onSendStateChange client0 ''discord.0.servers.1.channels.2.send'' (JStr ''hello'')) =
        Returns True
   \<and> snd (snd (onStateChange env0 client0 ''discord.0.servers.1.channels.2.send''
        (Some \<lparr>val = JStr ''hello'', ack = False\<rparr>))) =
        [SetState ''discord.0.servers.1.channels.2.send'' (JStr ''hello'') True]"
proof -
  have p: "prefix (namespace env0 @ ''.'') ''discord.0.servers.1.channels.2.send''"
    by (simp add: env0_def)
  have s: "suffix ''.send'' ''discord.0.servers.1.channels.2.send'' \<or>
           suffix ''.sendFile'' ''discord.0.servers.1.channels.2.send'' \<or>
           suffix ''.sendReply'' ''discord.0.servers.1.channels.2.send'' \<or>
           suffix ''.sendReaction'' ''discord.0.servers.1.channels.2.send''"
    by (simp add: suffix_to_prefix)
  note t = send_states_acknowledged_iff_handler_true[OF p s, of _ client0]
  have h: "onSendStateChange client0 ''discord.0.servers.1.channels.2.send'' (JStr ''hello'') =
             (Returns True, [Send (TChannel chan0) (JObj [(''content'', JStr ''hello'')])])"
    by (simp add: onSendStateChange_def client0_fields resolve0 send_payload_send
        send_dispatch_def suffix_to_prefix)
  show ?thesis
    using p t[of "JNum 5"] t[of "JStr []"] t[of "JStr ''hello''"] h
    by (simp add: suffix_to_prefix)
qed

subsection \<open>Presence projection\<close>

text \<open>
  Claim C7. With presence observation enabled the projection is to write the status to
  \<open>users.<id>.status\<close>, the activity name to \<open>users.<id>.activityName\<close> and the activity
  type to \<open>users.<id>.activityType\<close>, identically in both versions. The compiled version
  does (lemma \<open>updateUserPresence_leaves\<close> below); the TypeScript version passes the type
  to the activityName write and the name to the activityType write. For a user playing
  chess it stores \<open>PLAYING\<close> as the activity name and \<open>Chess\<close> as the activity type.
\<close>

theorem updateUserPresence_ts_swaps_activity_leaves:
  "store_calls (snd (updateUserPresence_ts env0 ''5'' (Some playing_chess) True adapter0)) =
     [SetState ''users.5.status'' (JStr ''online'') True,
      SetState ''users.5.activityName'' (JStr ''PLAYING'') True,
      SetState ''users.5.activityType'' (JStr ''Chess'') True]
   \<and> store_calls (snd (updateUserPresence env0 ''5'' (Some playing_chess) True adapter0)) =
     [SetState ''users.5.status'' (JStr ''online'') True,
      SetState ''users.5.activityName'' (JStr ''Chess'') True,
      SetState ''users.5.activityType'' (JStr ''PLAYING'') True]"
  by (simp add: updateUserPresence_ts_def updateUserPresence_def presence_values_def
      first_activity_def presence_json_update_def playing_chess_def env0_def adapter0_def Let_def)

lemma updateUserPresence_leaves:
  assumes "observeUserPresence e"
  shows "\<exists>proms. store_calls (snd (updateUserPresence e userId presence skip a)) =
     store_calls a @ proms @
     [SetState (''users.'' @ userId @ ''.status'') (JStr (pr_status (presence_values presence))) True,
      SetState (''users.'' @ userId @ ''.activityName'') (JStr (pr_activityName (presence_values presence))) True,
      SetState (''users.'' @ userId @ ''.activityType'') (JStr (pr_activityType (presence_values presence))) True]"
  using assms
  by (auto simp: updateUserPresence_def presence_json_update_def Let_def
      split: option.splits jsval.splits prod.splits)

subsection \<open>The two rounds over the channels\<close>














subsection \<open>The sweep\<close>







lemma updateUserPresence_calls:
  "prefix (store_calls a) (store_calls (snd (updateUserPresence e u p skip a)))"
  by (auto simp: updateUserPresence_def presence_json_update_def Let_def
      split: option.splits jsval.splits prod.splits)

lemma exec_op_calls: "prefix (store_calls a) (store_calls (snd (exec_op e x a)))"
  by (cases x)
     (auto simp: extendObjectAsyncCached_def call_store_def updateUserPresence_calls
       split: result.splits)

lemma exec_all_calls: "prefix (store_calls a) (store_calls (snd (exec_all e xs a)))"
proof (induction xs arbitrary: a)
  case Nil
  then show ?case by simp
next
  case (Cons x xs)
  obtain r1 a1 where x1: "exec_op e x a = (r1, a1)" by fastforce
  obtain r2 a2 where x2: "exec_all e xs a1 = (r2, a2)" by fastforce
  have "prefix (store_calls a) (store_calls a1)" using exec_op_calls[of a e x] x1 by simp
  moreover have "prefix (store_calls a1) (store_calls a2)" using Cons.IH[of a1] x2 by simp
  ultimately have "prefix (store_calls a) (store_calls a2)" by (rule prefix_order.trans)
  then show ?case using x1 x2 by simp
qed

lemma run_calls: "prefix (store_calls a) (store_calls (snd (run e ss a)))"
proof (induction ss arbitrary: a)
  case Nil
  then show ?case by simp
next
  case (Cons s ss)
  show ?case
  proof (cases s)
    case Raise
    then show ?thesis by simp
  next
    case (Await x)
    obtain r1 a1 where x1: "exec_op e x a = (r1, a1)" by fastforce
    have p: "prefix (store_calls a) (store_calls a1)" using exec_op_calls[of a e x] x1 by simp
    show ?thesis
    proof (cases r1)
      case Throws
      then show ?thesis using Await x1 p by simp
    next
      case (Returns u)
      have "prefix (store_calls a1) (store_calls (snd (run e ss a1)))" by (rule Cons.IH)
      with p have "prefix (store_calls a) (store_calls (snd (run e ss a1)))"
        by (rule prefix_order.trans)
      then show ?thesis using Await x1 Returns by simp
    qed
  next
    case (All xs)
    obtain r1 a1 where x1: "exec_all e xs a = (r1, a1)" by fastforce
    have p: "prefix (store_calls a) (store_calls a1)" using exec_all_calls[of a e xs] x1 by simp
    show ?thesis
    proof (cases r1)
      case Throws
      then show ?thesis using All x1 p by simp
    next
      case (Returns u)
      have "prefix (store_calls a1) (store_calls (snd (run e ss a1)))" by (rule Cons.IH)
      with p have "prefix (store_calls a) (store_calls (snd (run e ss a1)))"
        by (rule prefix_order.trans)
      then show ?thesis using All x1 Returns by simp
    qed
  qed
qed

lemma process_user_calls: "prefix (store_calls a) (store_calls (snd (process_user e up a)))"
proof (cases up)
  case (Pair u presence)
  obtain r a1 where r1: "run e (user_objs e u) a = (r, a1)" by fastforce
  have p1: "prefix (store_calls a) (store_calls a1)" using run_calls[of a e "user_objs e u"] r1 by simp
  show ?thesis
  proof (cases r)
    case Throws
    then show ?thesis using Pair r1 p1 by (simp add: process_user_def)
  next
    case (Returns x)
    obtain ps a2 where up2: "updateUserPresence e (ru_id u) presence True a1 = (ps, a2)" by fastforce
    have p2: "prefix (store_calls a1) (store_calls a2)"
      using updateUserPresence_calls[of a1 e "ru_id u" presence True] up2 by simp
    have p3: "prefix (store_calls a2) (store_calls (snd (run e (user_values e u presence ps) a2)))"
      by (rule run_calls)
    have "prefix (store_calls a) (store_calls a2)" using p1 p2 by (rule prefix_order.trans)
    then have "prefix (store_calls a) (store_calls (snd (run e (user_values e u presence ps) a2)))"
      using p3 by (rule prefix_order.trans)
    then show ?thesis using Pair r1 Returns up2 by (simp add: process_user_def)
  qed
qed

lemma process_users_calls: "prefix (store_calls a) (store_calls (snd (process_users e us a)))"
proof (induction us arbitrary: a)
  case Nil
  then show ?case by simp
next
  case (Cons x xs)
  obtain r a1 where r1: "process_user e (snd x) a = (r, a1)" by fastforce
  have p1: "prefix (store_calls a) (store_calls a1)" using process_user_calls[of a e "snd x"] r1 by simp
  show ?case
  proof (cases r)
    case Throws
    then show ?thesis using r1 p1 by simp
  next
    case (Returns u)
    have "prefix (store_calls a) (store_calls (snd (process_users e xs a1)))"
      using p1 Cons.IH[of a1] by (rule prefix_order.trans)
    then show ?thesis using r1 Returns by simp
  qed
qed

lemma walk_calls: "prefix (store_calls a) (store_calls (snd (walk e botId gs a)))"
proof -
  obtain r a1 where r1: "run e (concat (map (guild_stmts e) gs)) a = (r, a1)" by fastforce
  have p1: "prefix (store_calls a) (store_calls a1)"
    using run_calls[of a e "concat (map (guild_stmts e) gs)"] r1 by simp
  show ?thesis
  proof (cases r)
    case Throws
    then show ?thesis using r1 p1 by (simp add: walk_def)
  next
    case (Returns u)
    have "prefix (store_calls a) (store_calls (snd (process_users e (allServersUsers botId gs) a1)))"
      using p1 process_users_calls[of a1 e "allServersUsers botId gs"] by (rule prefix_order.trans)
    then show ?thesis using r1 Returns by (simp add: walk_def)
  qed
qed

lemma drop_mono_set:
  assumes "prefix xs ys" "x \<in> set (drop (length ys) zs)"
  shows "x \<in> set (drop (length xs) zs)"
proof -
  have "length xs \<le> length ys" using assms(1) by (rule prefix_length_le)
  then have "set (drop (length ys) zs) \<subseteq> set (drop (length xs) zs)"
    by (rule set_drop_subset_set_drop)
  then show ?thesis using assms(2) by blast
qed

subsection \<open>The unloaded flag and the result of a pass\<close>

lemma updateUserPresence_unloaded:
  "unloaded (snd (updateUserPresence e u p skip a)) = unloaded a"
  by (auto simp: updateUserPresence_def presence_json_update_def Let_def
      split: option.splits jsval.splits prod.splits)

lemma exec_op_unloaded: "unloaded (snd (exec_op e x a)) = unloaded a"
  by (cases x)
     (auto simp: extendObjectAsyncCached_def call_store_def updateUserPresence_unloaded
       split: result.splits)

lemma exec_all_unloaded: "unloaded (snd (exec_all e xs a)) = unloaded a"
proof (induction xs arbitrary: a)
  case Nil
  then show ?case by simp
next
  case (Cons x xs)
  obtain r1 a1 where x1: "exec_op e x a = (r1, a1)" by fastforce
  obtain r2 a2 where x2: "exec_all e xs a1 = (r2, a2)" by fastforce
  have "unloaded a1 = unloaded a" using exec_op_unloaded[of e x a] x1 by simp
  moreover have "unloaded a2 = unloaded a1" using Cons.IH[of a1] x2 by simp
  ultimately show ?case using x1 x2 by simp
qed

lemma run_unloaded: "unloaded (snd (run e ss a)) = unloaded a"
proof (induction ss arbitrary: a)
  case Nil
  then show ?case by simp
next
  case (Cons s ss)
  show ?case
  proof (cases s)
    case Raise
    then show ?thesis by simp
  next
    case (Await x)
    obtain r1 a1 where x1: "exec_op e x a = (r1, a1)" by fastforce
    have p: "unloaded a1 = unloaded a" using exec_op_unloaded[of e x a] x1 by simp
    show ?thesis using Await x1 p Cons.IH[of a1] by (cases r1) simp_all
  next
    case (All xs)
    obtain r1 a1 where x1: "exec_all e xs a = (r1, a1)" by fastforce
    have p: "unloaded a1 = unloaded a" using exec_all_unloaded[of e xs a] x1 by simp
    show ?thesis using All x1 p Cons.IH[of a1] by (cases r1) simp_all
  qed
qed

lemma process_user_unloaded: "unloaded (snd (process_user e up a)) = unloaded a"
proof -
  obtain u presence where up: "up = (u, presence)" by (cases up)
  obtain r1 a1 where x1: "run e (user_objs e u) a = (r1, a1)" by fastforce
  obtain ps a2 where x2: "updateUserPresence e (ru_id u) presence True a1 = (ps, a2)" by fastforce
  have p1: "unloaded a1 = unloaded a" using run_unloaded[of e "user_objs e u" a] x1 by simp
  have p2: "unloaded a2 = unloaded a1"
    using updateUserPresence_unloaded[of e "ru_id u" presence True a1] x2 by simp
  show ?thesis using up x1 x2 p1 p2 run_unloaded[of e "user_values e u presence ps" a2]
    by (cases r1) (simp_all add: process_user_def)
qed

lemma process_users_unloaded: "unloaded (snd (process_users e xs a)) = unloaded a"
proof (induction xs arbitrary: a)
  case Nil
  then show ?case by simp
next
  case (Cons x xs)
  obtain r1 a1 where x1: "process_user e (snd x) a = (r1, a1)" by fastforce
  have p: "unloaded a1 = unloaded a" using process_user_unloaded[of e "snd x" a] x1 by simp
  show ?case using x1 p Cons.IH[of a1] by (cases r1) simp_all
qed

lemma walk_unloaded: "unloaded (snd (walk e b gs a)) = unloaded a"
proof -
  obtain r1 a1 where x1: "run e (concat (map (guild_stmts e) gs)) a = (r1, a1)" by fastforce
  have p: "unloaded a1 = unloaded a"
    using run_unloaded[of e "concat (map (guild_stmts e) gs)" a] x1 by simp
  show ?thesis using x1 p process_users_unloaded[of e "allServersUsers b gs" a1]
    by (cases r1) (simp_all add: walk_def)
qed

lemma forget_unloaded: "unloaded (snd (forget e kind idPath a)) = unloaded a"
  by (simp add: forget_def delObjectAsyncCached_def call_store_def)

lemma sweep_servers_unloaded: "unloaded (snd (sweep_servers e known rows a)) = unloaded a"
proof (induction rows arbitrary: a)
  case Nil
  then show ?case by simp
next
  case (Cons ident rows)
  obtain r1 a1 where x1: "forget e ''servers'' (the (match_reServersChannels (namespace e) ident)) a = (r1, a1)"
    by fastforce
  have p: "unloaded a1 = unloaded a"
    using forget_unloaded[of e "''servers''" "the (match_reServersChannels (namespace e) ident)" a] x1
    by simp
  show ?case using x1 p Cons.IH[of a1] Cons.IH[of a]
    by (cases r1) (auto split: option.splits)
qed

lemma sweep_users_unloaded: "unloaded (snd (sweep_users e users rows a)) = unloaded a"
proof (induction rows arbitrary: a)
  case Nil
  then show ?case by simp
next
  case (Cons ident rows)
  obtain r1 a1 where x1: "forget e ''users'' (the (match_reUsers (namespace e) ident)) a = (r1, a1)"
    by fastforce
  have p: "unloaded a1 = unloaded a"
    using forget_unloaded[of e "''users''" "the (match_reUsers (namespace e) ident)" a] x1
    by simp
  show ?case using x1 p Cons.IH[of a1] Cons.IH[of a]
    by (cases r1) (auto split: option.splits)
qed

lemma sweep_unloaded: "unloaded (snd (sweep e listing known users a)) = unloaded a"
proof (cases "servers_rows listing")
  case None
  then show ?thesis by (simp add: sweep_def)
next
  case (Some srows)
  obtain r1 a1 where x1: "sweep_servers e known srows a = (r1, a1)" by fastforce
  have p: "unloaded a1 = unloaded a" using sweep_servers_unloaded[of e known srows a] x1 by simp
  show ?thesis
  proof (cases "users_rows listing")
    case None
    then show ?thesis using Some x1 p by (cases r1) (simp_all add: sweep_def)
  next
    case (Some urows)
    then show ?thesis
      using \<open>servers_rows listing = Some srows\<close> x1 p sweep_users_unloaded[of e users urows a1]
      by (cases r1) (simp_all add: sweep_def)
  qed
qed

lemma updateGuilds_unloaded: "unloaded (snd (updateGuilds e r listing a)) = unloaded a"
proof (cases "client_user r")
  case None
  then show ?thesis by (simp add: updateGuilds_def)
next
  case (Some b)
  show ?thesis
  proof (cases "guilds r")
    case None
    then show ?thesis using Some by (simp add: updateGuilds_def)
  next
    case g: (Some gs)
    obtain r1 a1 where x1: "walk e b (fetched gs) a = (r1, a1)" by fastforce
    have p: "unloaded a1 = unloaded a" using walk_unloaded[of e b "fetched gs" a] x1 by simp
    show ?thesis
      using Some g x1 p
        sweep_unloaded[of e listing "knownServersAndChannelsIds e (fetched gs)"
          "map fst (allServersUsers b (fetched gs))" a1]
      by (cases r1) (simp_all add: updateGuilds_def)
  qed
qed

lemma exec_op_returns:
  "\<forall>c. \<not> store_rejects e c \<Longrightarrow> fst (exec_op e x a) = Returns ()"
  by (cases x) (auto simp: extendObjectAsyncCached_def call_store_def)

lemma exec_all_returns:
  "\<forall>c. \<not> store_rejects e c \<Longrightarrow> fst (exec_all e xs a) = Returns ()"
proof (induction xs arbitrary: a)
  case Nil
  then show ?case by simp
next
  case (Cons x xs)
  obtain r1 a1 where x1: "exec_op e x a = (r1, a1)" by fastforce
  obtain r2 a2 where x2: "exec_all e xs a1 = (r2, a2)" by fastforce
  have "r1 = Returns ()" using exec_op_returns[OF Cons.prems, of x a] x1 by simp
  moreover have "r2 = Returns ()" using Cons.IH[OF Cons.prems, of a1] x2 by simp
  ultimately show ?case using x1 x2 by simp
qed

lemma run_returns:
  "\<forall>c. \<not> store_rejects e c \<Longrightarrow> Raise \<notin> set ss \<Longrightarrow> fst (run e ss a) = Returns ()"
proof (induction ss arbitrary: a)
  case Nil
  then show ?case by simp
next
  case (Cons s ss)
  have nr: "Raise \<notin> set ss" using Cons.prems(2) by simp
  show ?case
  proof (cases s)
    case Raise
    then show ?thesis using Cons.prems(2) by simp
  next
    case (Await x)
    obtain r1 a1 where x1: "exec_op e x a = (r1, a1)" by fastforce
    have "r1 = Returns ()" using exec_op_returns[OF Cons.prems(1), of x a] x1 by simp
    then show ?thesis using Await x1 Cons.IH[OF Cons.prems(1) nr, of a1] by simp
  next
    case (All xs)
    obtain r1 a1 where x1: "exec_all e xs a = (r1, a1)" by fastforce
    have "r1 = Returns ()" using exec_all_returns[OF Cons.prems(1), of xs a] x1 by simp
    then show ?thesis using All x1 Cons.IH[OF Cons.prems(1) nr, of a1] by simp
  qed
qed

lemma member_stmts_no_Raise: "Raise \<notin> set (member_stmts e g m)"
  by (simp add: member_stmts_def Let_def)

lemma channel_stmts_no_Raise: "Raise \<notin> set (channel_stmts e g parents ch)"
  by (auto simp: channel_stmts_def Let_def)

lemma two_waves_no_Raise: "Raise \<notin> set (two_waves (channel_stmts e g) channels)"
  by (auto simp: two_waves_def channel_stmts_no_Raise)

lemma guild_stmts_no_Raise:
  "g_members g \<noteq> None \<Longrightarrow> g_channels g \<noteq> None \<Longrightarrow> Raise \<notin> set (guild_stmts e g)"
  by (auto simp: guild_stmts_def member_stmts_no_Raise two_waves_no_Raise)

lemma user_objs_no_Raise: "Raise \<notin> set (user_objs e u)"
  by (simp add: user_objs_def Let_def)

lemma user_values_no_Raise: "Raise \<notin> set (user_values e u presence ps)"
  by (simp add: user_values_def Let_def)

lemma process_user_returns:
  assumes "\<forall>c. \<not> store_rejects e c"
  shows "fst (process_user e up a) = Returns ()"
proof -
  obtain u presence where up: "up = (u, presence)" by (cases up)
  obtain r1 a1 where x1: "run e (user_objs e u) a = (r1, a1)" by fastforce
  obtain ps a2 where x2: "updateUserPresence e (ru_id u) presence True a1 = (ps, a2)" by fastforce
  have "r1 = Returns ()" using run_returns[OF assms user_objs_no_Raise[of e u], of a] x1 by simp
  then show ?thesis
    using up x1 x2 run_returns[OF assms user_values_no_Raise[of e u presence ps], of a2]
    by (simp add: process_user_def)
qed

lemma process_users_returns:
  assumes "\<forall>c. \<not> store_rejects e c"
  shows "fst (process_users e xs a) = Returns ()"
proof (induction xs arbitrary: a)
  case Nil
  then show ?case by simp
next
  case (Cons x xs)
  obtain r1 a1 where x1: "process_user e (snd x) a = (r1, a1)" by fastforce
  have "r1 = Returns ()" using process_user_returns[OF assms, of "snd x" a] x1 by simp
  then show ?case using x1 Cons.IH[of a1] by simp
qed

lemma walk_returns:
  assumes "\<forall>c. \<not> store_rejects e c"
      and "\<forall>g \<in> set gs. g_members g \<noteq> None \<and> g_channels g \<noteq> None"
  shows "fst (walk e b gs a) = Returns ()"
proof -
  have nr: "Raise \<notin> set (concat (map (guild_stmts e) gs))"
    using assms(2) guild_stmts_no_Raise by auto
  obtain r1 a1 where x1: "run e (concat (map (guild_stmts e) gs)) a = (r1, a1)" by fastforce
  have "r1 = Returns ()" using run_returns[OF assms(1) nr, of a] x1 by simp
  then show ?thesis using x1 process_users_returns[OF assms(1), of "allServersUsers b gs" a1]
    by (simp add: walk_def)
qed

lemma forget_returns:
  "\<forall>c. \<not> store_rejects e c \<Longrightarrow> fst (forget e kind idPath a) = Returns ()"
  by (simp add: forget_def delObjectAsyncCached_def call_store_def)

lemma sweep_servers_returns:
  assumes "\<forall>c. \<not> store_rejects e c"
  shows "fst (sweep_servers e known rows a) = Returns ()"
proof (induction rows arbitrary: a)
  case Nil
  then show ?case by simp
next
  case (Cons ident rows)
  obtain r1 a1 where x1: "forget e ''servers'' (the (match_reServersChannels (namespace e) ident)) a = (r1, a1)"
    by fastforce
  have "r1 = Returns ()"
    using forget_returns[OF assms, of "''servers''" "the (match_reServersChannels (namespace e) ident)" a] x1
    by simp
  then show ?case using x1 Cons.IH[of a1] Cons.IH[of a]
    by (auto split: option.splits)
qed

lemma sweep_users_returns:
  assumes "\<forall>c. \<not> store_rejects e c"
  shows "fst (sweep_users e users rows a) = Returns ()"
proof (induction rows arbitrary: a)
  case Nil
  then show ?case by simp
next
  case (Cons ident rows)
  obtain r1 a1 where x1: "forget e ''users'' (the (match_reUsers (namespace e) ident)) a = (r1, a1)"
    by fastforce
  have "r1 = Returns ()"
    using forget_returns[OF assms, of "''users''" "the (match_reUsers (namespace e) ident)" a] x1
    by simp
  then show ?case using x1 Cons.IH[of a1] Cons.IH[of a]
    by (auto split: option.splits)
qed

lemma sweep_returns:
  assumes "\<forall>c. \<not> store_rejects e c" "servers_rows listing = Some srows" "users_rows listing = Some urows"
  shows "fst (sweep e listing known users a) = Returns ()"
proof -
  obtain r1 a1 where x1: "sweep_servers e known srows a = (r1, a1)" by fastforce
  have "r1 = Returns ()" using sweep_servers_returns[OF assms(1), of known srows a] x1 by simp
  then show ?thesis using assms(2,3) x1 sweep_users_returns[OF assms(1), of users urows a1]
    by (simp add: sweep_def)
qed

lemma fetched_mem: "g \<in> set (fetched gs) \<Longrightarrow> Some g \<in> set gs"
  by (auto simp: fetched_def split: option.splits)

lemma updateGuilds_returns:
  assumes "\<forall>c. \<not> store_rejects e c" "client_user r = Some b" "guilds r = Some gs"
      and "\<forall>g \<in> set (fetched gs). g_members g \<noteq> None \<and> g_channels g \<noteq> None"
      and "servers_rows listing = Some srows" "users_rows listing = Some urows"
  shows "fst (updateGuilds e r listing a) = Returns ()"
proof (cases "unloaded a")
  case True
  then show ?thesis using assms(2) by (simp add: updateGuilds_def)
next
  case False
  obtain r1 a1 where x1: "walk e b (fetched gs) a = (r1, a1)" by fastforce
  have "r1 = Returns ()" using walk_returns[OF assms(1,4), of b a] x1 by simp
  then show ?thesis
    using False assms(2,3) x1
      sweep_returns[OF assms(1,5,6), of "knownServersAndChannelsIds e (fetched gs)"
        "map fst (allServersUsers b (fetched gs))" a1]
    by (simp add: updateGuilds_def)
qed

lemma fetched_guild1: "fetched [Some guild1] = [guild1]"
  by (simp add: fetched_def)

lemma env0_never_rejects: "\<forall>c. \<not> store_rejects env0 c"
  by (simp add: env0_def)

lemma guild1_complete:
  "\<forall>g \<in> set (fetched [Some guild1]). g_members g \<noteq> None \<and> g_channels g \<noteq> None"
  unfolding fetched_guild1 by (simp add: guild1_def)

lemma remote1_fields: "client_user remote1 = Some ''9''" "guilds remote1 = Some [Some guild1]"
  by (simp_all add: remote1_def)

lemma adapter1_loaded: "\<not> unloaded adapter1"
  by (simp add: adapter1_def adapter0_def)

lemma pass1_returns: "fst pass1 = Returns ()"
  unfolding pass1_def
  by (rule updateGuilds_returns[OF env0_never_rejects remote1_fields guild1_complete])
     (simp_all add: listing1_def)

lemma pass1_loaded: "\<not> unloaded (snd pass1)"
  unfolding pass1_def by (simp add: updateGuilds_unloaded adapter1_loaded)

lemma pass2_returns: "fst pass2 = Returns ()"
  unfolding pass2_def
  by (rule updateGuilds_returns[OF env0_never_rejects remote1_fields guild1_complete])
     (simp_all add: listing2_def)







subsection \<open>A second pass\<close>

lemma quiet_refl: "quiet L a a"
  by (simp add: quiet_def)

lemma quiet_trans: "quiet L a b \<Longrightarrow> quiet L b c \<Longrightarrow> quiet L a c"
  unfolding quiet_def by (elim exE conjE, rule_tac x = "new @ newa" in exI) auto

lemma users_not_servers: "prefix ''servers.'' ident \<Longrightarrow> \<not> prefix ''users.'' ident"
  by (auto simp: prefix_def)

lemma presence_users_writes:
  "quiet L a (snd (updateUserPresence e u p skip a))"
  by (auto simp: updateUserPresence_def presence_json_update_def quiet_def is_user_write_def
      suffix_def Let_def split: option.splits jsval.splits prod.splits)

lemma presence_ext_cache:
  "extendObjectCache (snd (updateUserPresence e u p skip a)) = extendObjectCache a"
  by (auto simp: updateUserPresence_def presence_json_update_def Let_def
      split: option.splits jsval.splits prod.splits)

lemma presence_json_cache:
  "prefix ''servers.'' ident \<Longrightarrow>
   jsonStateCache (snd (updateUserPresence e u p skip a)) (namespace e @ ''.'' @ ident) =
   jsonStateCache a (namespace e @ ''.'' @ ident)"
  by (auto simp: updateUserPresence_def presence_json_update_def Let_def prefix_def
      split: option.splits jsval.splits prod.splits)

lemma presence_warm:
  assumes "warm e X J a" "servers_only J"
  shows "warm e X J (snd (updateUserPresence e u p skip a))"
proof -
  have "jsonStateCache (snd (updateUserPresence e u p skip a)) (namespace e @ ''.'' @ ident) = Some json"
    if "(ident, json) \<in> J" for ident json
  proof -
    have "prefix ''servers.'' ident" using that assms(2) by (auto simp: servers_only_def)
    then show ?thesis using presence_json_cache[of ident e u p skip a] assms(1) that
      unfolding warm_def by metis
  qed
  then show ?thesis using assms(1) unfolding warm_def by (simp add: presence_ext_cache)
qed

lemma exec_op_warm:
  assumes "warm e X J a" "fits X J L x" "servers_only J"
  shows "warm e X J (snd (exec_op e x a)) \<and> quiet L a (snd (exec_op e x a))"
proof (cases x)
  case (ExtendCached ident obj)
  then have "extendObjectCache a ident = Some obj" using assms by (auto simp: warm_def fits_def)
  then have "exec_op e x a = (Returns (), a)"
    using ExtendCached by (simp add: extendObjectAsyncCached_def isDeepStrictEqual_def)
  then show ?thesis using assms(1) by (simp add: quiet_refl)
next
  case (SetStateAck ident v)
  then show ?thesis using assms
    by (auto simp: warm_def fits_def quiet_def call_store_def)
next
  case (JsonAwait ident json)
  then have "jsonStateCache a (namespace e @ ''.'' @ ident) = Some json"
    using assms by (auto simp: warm_def fits_def)
  then have "exec_op e x a = (Returns (), a)"
    using JsonAwait by (simp add: isDeepStrictEqual_def)
  then show ?thesis using assms(1) by (simp add: quiet_refl)
next
  case (JsonPush ident json)
  show ?thesis
  proof (cases "(ident, json) \<in> J")
    case True
    then have "jsonStateCache a (namespace e @ ''.'' @ ident) = Some json"
      using assms by (auto simp: warm_def)
    then have "exec_op e x a = (Returns (), a)"
      using JsonPush by (simp add: isDeepStrictEqual_def)
    then show ?thesis using assms(1) by (simp add: quiet_refl)
  next
    case False
    then have u: "prefix ''users.'' ident" "suffix ''.json'' ident"
      using assms(2) JsonPush by (auto simp: fits_def)
    have other: "k \<noteq> ident" if "(k, j) \<in> J" for k j
      using that u(1) users_not_servers assms(3) by (auto simp: servers_only_def)
    show ?thesis
    proof (cases "isDeepStrictEqual (jsonStateCache a (namespace e @ ''.'' @ ident)) json")
      case True
      then have "exec_op e x a = (Returns (), a)" using JsonPush by simp
      then show ?thesis using assms(1) by (simp add: quiet_refl)
    next
      case False
      have w: "warm e X J (snd (exec_op e x a))"
        using JsonPush False assms(1) other unfolding warm_def
        by (auto simp: call_store_def)
      have q: "quiet L a (snd (exec_op e x a))"
        using JsonPush False u by (auto simp: quiet_def call_store_def is_user_write_def)
      show ?thesis using w q by blast
    qed
  qed
next
  case (AddReceive key)
  then show ?thesis using assms(1) by (simp add: warm_def quiet_def)
next
  case (Presence u p skip)
  then show ?thesis using presence_warm[OF assms(1,3)] presence_users_writes by simp
qed

lemma exec_all_warm:
  assumes "warm e X J a" "\<forall>x \<in> set xs. fits X J L x" "servers_only J"
  shows "warm e X J (snd (exec_all e xs a)) \<and> quiet L a (snd (exec_all e xs a))"
  using assms
proof (induction xs arbitrary: a)
  case Nil
  then show ?case by (simp add: quiet_refl)
next
  case (Cons x xs)
  obtain r1 a1 where x1: "exec_op e x a = (r1, a1)" by fastforce
  obtain r2 a2 where x2: "exec_all e xs a1 = (r2, a2)" by fastforce
  have s1: "warm e X J a1 \<and> quiet L a a1"
    using exec_op_warm[of e X J a L x] Cons.prems x1 by simp
  then have s2: "warm e X J a2 \<and> quiet L a1 a2"
    using Cons.IH[of a1] Cons.prems x2 by simp
  show ?case using s1 s2 x1 x2 quiet_trans by auto
qed

lemma run_warm:
  assumes "warm e X J a" "\<forall>x \<in> set (ops_of ss). fits X J L x" "servers_only J"
  shows "warm e X J (snd (run e ss a)) \<and> quiet L a (snd (run e ss a))"
  using assms
proof (induction ss arbitrary: a)
  case Nil
  then show ?case by (simp add: quiet_refl)
next
  case (Cons s ss)
  show ?case
  proof (cases s)
    case Raise
    then show ?thesis using Cons.prems by (simp add: quiet_refl)
  next
    case (Await x)
    obtain r1 a1 where x1: "exec_op e x a = (r1, a1)" by fastforce
    have s1: "warm e X J a1 \<and> quiet L a a1"
      using exec_op_warm[of e X J a L x] Cons.prems x1 Await by simp
    have s2: "warm e X J (snd (run e ss a1)) \<and> quiet L a1 (snd (run e ss a1))"
      using Cons.IH[of a1] Cons.prems s1 Await by simp
    show ?thesis using s1 s2 x1 Await quiet_trans by (cases r1) auto
  next
    case (All xs)
    obtain r1 a1 where x1: "exec_all e xs a = (r1, a1)" by fastforce
    have s1: "warm e X J a1 \<and> quiet L a a1"
      using exec_all_warm[of e X J a xs L] Cons.prems x1 All by simp
    have s2: "warm e X J (snd (run e ss a1)) \<and> quiet L a1 (snd (run e ss a1))"
      using Cons.IH[of a1] Cons.prems s1 All by simp
    show ?thesis using s1 s2 x1 All quiet_trans by (cases r1) auto
  qed
qed

lemma ops_of_append: "ops_of (xs @ ys) = ops_of xs @ ops_of ys"
  by (induction xs rule: ops_of.induct) simp_all

lemma ops_of_concat: "set (ops_of (concat xss)) = (\<Union>xs \<in> set xss. set (ops_of xs))"
  by (induction xss) (simp_all add: ops_of_append)

lemma pwarm_mono: "pwarm e X J Kx Kj a \<Longrightarrow> Kx' \<subseteq> Kx \<Longrightarrow> Kj' \<subseteq> Kj \<Longrightarrow> pwarm e X J Kx' Kj' a"
  unfolding pwarm_def by blast

lemma presence_pwarm:
  assumes "pwarm e X J Kx Kj a" "servers_only J"
  shows "pwarm e X J Kx Kj (snd (updateUserPresence e u p skip a))"
proof -
  have "jsonStateCache (snd (updateUserPresence e u p skip a)) (namespace e @ ''.'' @ ident) = Some json"
    if "(ident, json) \<in> J" "ident \<in> Kj" for ident json
  proof -
    have "prefix ''servers.'' ident" using that assms(2) by (auto simp: servers_only_def)
    then show ?thesis using presence_json_cache[of ident e u p skip a] assms(1) that
      unfolding pwarm_def by metis
  qed
  then show ?thesis using assms(1) unfolding pwarm_def by (simp add: presence_ext_cache)
qed

lemma cold_op:
  assumes pw: "pwarm e X J Kx Kj a" and fit: "fits X J L x"
      and sx: "single_valued X" and sj: "single_valued J" and so: "servers_only J"
      and ex: "exec_op e x a = (Returns u, a')"
  shows "pwarm e X J (Kx \<union> kx x) (Kj \<union> kj x) a'"
proof (cases x)
  case (ExtendCached ident obj)
  have inX: "(ident, obj) \<in> X" using fit ExtendCached by (simp add: fits_def)
  have j: "jsonStateCache a' = jsonStateCache a"
    using ex ExtendCached
    by (auto simp: extendObjectAsyncCached_def call_store_def split: if_splits)
  have c: "extendObjectCache a' = (extendObjectCache a)(ident \<mapsto> obj)"
    using ex ExtendCached
    by (auto simp: extendObjectAsyncCached_def call_store_def isDeepStrictEqual_def
        split: if_splits)
  have "extendObjectCache a' i = Some o'" if "(i, o') \<in> X" "i \<in> Kx \<union> {ident}" for i o'
  proof (cases "i = ident")
    case True
    then have "o' = obj" using that(1) inX sx by (auto simp: single_valued_def)
    then show ?thesis using True c by simp
  next
    case False
    then show ?thesis using that pw c by (auto simp: pwarm_def)
  qed
  then show ?thesis using pw j ExtendCached unfolding pwarm_def kx_def kj_def by simp
next
  case (SetStateAck ident v)
  then show ?thesis using pw ex by (auto simp: pwarm_def kx_def kj_def call_store_def)
next
  case (JsonAwait ident json)
  have inJ: "(ident, json) \<in> J" using fit JsonAwait by (simp add: fits_def)
  have c: "extendObjectCache a' = extendObjectCache a"
    using ex JsonAwait by (auto simp: call_store_def split: if_splits)
  have j: "jsonStateCache a' = (jsonStateCache a)(namespace e @ ''.'' @ ident \<mapsto> json)"
    using ex JsonAwait by (auto simp: call_store_def isDeepStrictEqual_def split: if_splits)
  have "jsonStateCache a' (namespace e @ ''.'' @ i) = Some j'"
    if "(i, j') \<in> J" "i \<in> Kj \<union> {ident}" for i j'
  proof (cases "i = ident")
    case True
    then have "j' = json" using that(1) inJ sj by (auto simp: single_valued_def)
    then show ?thesis using True j by simp
  next
    case False
    then show ?thesis using that pw j by (auto simp: pwarm_def)
  qed
  then show ?thesis using pw c JsonAwait unfolding pwarm_def kx_def kj_def by simp
next
  case (JsonPush ident json)
  have c: "extendObjectCache a' = extendObjectCache a"
    using ex JsonPush by (auto simp: call_store_def split: if_splits)
  have j: "jsonStateCache a' = (jsonStateCache a)(namespace e @ ''.'' @ ident \<mapsto> json)"
    using ex JsonPush by (auto simp: call_store_def isDeepStrictEqual_def split: if_splits)
  have "jsonStateCache a' (namespace e @ ''.'' @ i) = Some j'"
    if "(i, j') \<in> J" "i \<in> Kj \<union> {ident}" for i j'
  proof (cases "i = ident")
    case True
    have "(ident, json) \<in> J"
      using fit JsonPush True that(1) so users_not_servers
      by (auto simp: fits_def servers_only_def)
    then have "j' = json" using that(1) True sj by (auto simp: single_valued_def)
    then show ?thesis using True j by simp
  next
    case False
    then show ?thesis using that pw j by (auto simp: pwarm_def)
  qed
  then show ?thesis using pw c JsonPush unfolding pwarm_def kx_def kj_def by simp
next
  case (AddReceive key)
  then show ?thesis using pw ex by (auto simp: pwarm_def kx_def kj_def)
next
  case (Presence uu p skip)
  then show ?thesis using presence_pwarm[OF pw so, of uu p skip] ex by (auto simp: kx_def kj_def)
qed

lemma cold_all:
  assumes "pwarm e X J Kx Kj a" "\<forall>x \<in> set xs. fits X J L x"
      and "single_valued X" "single_valued J" "servers_only J"
      and "exec_all e xs a = (Returns u, a')"
  shows "pwarm e X J (Kx \<union> kxs xs) (Kj \<union> kjs xs) a'"
  using assms(1,2,6)
proof (induction xs arbitrary: a Kx Kj)
  case Nil
  then show ?case by (simp add: kxs_def kjs_def)
next
  case (Cons x xs)
  obtain r1 a1 where x1: "exec_op e x a = (r1, a1)" by fastforce
  obtain r2 a2 where x2: "exec_all e xs a1 = (r2, a2)" by fastforce
  from Cons.prems(3) x1 x2 have r: "r1 = Returns ()" "r2 = Returns u" "a2 = a'"
    by (auto split: if_splits) (cases r1, auto)+
  have p1: "pwarm e X J (Kx \<union> kx x) (Kj \<union> kj x) a1"
    using cold_op[OF Cons.prems(1) _ assms(3,4,5), of L x "()" a1] Cons.prems(2) x1 r by simp
  have "pwarm e X J ((Kx \<union> kx x) \<union> kxs xs) ((Kj \<union> kj x) \<union> kjs xs) a'"
    using Cons.IH[OF p1] Cons.prems(2) x2 r by simp
  then show ?case by (simp add: kxs_def kjs_def Un_assoc)
qed

lemma cold_run:
  assumes "pwarm e X J Kx Kj a" "\<forall>x \<in> set (ops_of ss). fits X J L x"
      and "single_valued X" "single_valued J" "servers_only J"
      and "run e ss a = (Returns u, a')"
  shows "pwarm e X J (Kx \<union> kxs (ops_of ss)) (Kj \<union> kjs (ops_of ss)) a'"
  using assms(1,2,6)
proof (induction ss arbitrary: a Kx Kj)
  case Nil
  then show ?case by (simp add: kxs_def kjs_def)
next
  case (Cons s ss)
  show ?case
  proof (cases s)
    case Raise
    then show ?thesis using Cons.prems by simp
  next
    case (Await x)
    obtain r1 a1 where x1: "exec_op e x a = (r1, a1)" by fastforce
    from Cons.prems(3) Await x1 have r: "r1 = Returns ()" and rest: "run e ss a1 = (Returns u, a')"
      by (cases r1; simp)+
    have p1: "pwarm e X J (Kx \<union> kx x) (Kj \<union> kj x) a1"
      using cold_op[OF Cons.prems(1) _ assms(3,4,5), of L x "()" a1] Cons.prems(2) x1 r Await
      by simp
    have "pwarm e X J ((Kx \<union> kx x) \<union> kxs (ops_of ss)) ((Kj \<union> kj x) \<union> kjs (ops_of ss)) a'"
      using Cons.IH[OF p1 _ rest] Cons.prems(2) Await by simp
    then show ?thesis using Await by (simp add: kxs_def kjs_def Un_assoc)
  next
    case (All xs)
    obtain r1 a1 where x1: "exec_all e xs a = (r1, a1)" by fastforce
    from Cons.prems(3) All x1 have r: "r1 = Returns ()" and rest: "run e ss a1 = (Returns u, a')"
      by (cases r1; simp)+
    have p1: "pwarm e X J (Kx \<union> kxs xs) (Kj \<union> kjs xs) a1"
      using cold_all[OF Cons.prems(1) _ assms(3,4,5), of xs L "()" a1] Cons.prems(2) x1 r All
      by simp
    have "pwarm e X J ((Kx \<union> kxs xs) \<union> kxs (ops_of ss)) ((Kj \<union> kjs xs) \<union> kjs (ops_of ss)) a'"
      using Cons.IH[OF p1 _ rest] Cons.prems(2) All by simp
    then show ?thesis using All by (simp add: kxs_def kjs_def Un_assoc)
  qed
qed

lemma mem_object_requests:
  "(i, obj) \<in> set (object_requests e b gs) \<longleftrightarrow>
     ExtendCached i obj \<in> set (guild_ops e gs) \<union> set (user_ops e (allServersUsers b gs))"
proof -
  have "(i, obj) \<in> set (case x of ExtendCached ident ob \<Rightarrow> [(ident, ob)] | _ \<Rightarrow> []) \<longleftrightarrow>
          x = ExtendCached i obj" for x
    by (cases x) auto
  then show ?thesis by (auto simp: object_requests_def)
qed

lemma mem_snapshot_requests:
  "(i, j) \<in> set (snapshot_requests e gs) \<longleftrightarrow>
     JsonAwait i j \<in> set (guild_ops e gs) \<or> JsonPush i j \<in> set (guild_ops e gs)"
proof -
  have "(i, j) \<in> set (case x of JsonAwait ident json \<Rightarrow> [(ident, json)]
                             | JsonPush ident json \<Rightarrow> [(ident, json)] | _ \<Rightarrow> []) \<longleftrightarrow>
          x = JsonAwait i j \<or> x = JsonPush i j" for x
    by (cases x) auto
  then show ?thesis by (auto simp: snapshot_requests_def)
qed

lemma mem_leaf_writes:
  "SetState i v True \<in> set (leaf_writes e b gs) \<longleftrightarrow>
     SetStateAck i v \<in> set (guild_ops e gs) \<union> set (user_ops e (allServersUsers b gs))"
proof -
  have "SetState i v True \<in> set (case x of SetStateAck ident w \<Rightarrow> [SetState ident w True] | _ \<Rightarrow> [])
          \<longleftrightarrow> x = SetStateAck i v" for x
    by (cases x) auto
  then show ?thesis by (auto simp: leaf_writes_def)
qed

lemma fits_guild_ops:
  assumes "x \<in> set (guild_ops e gs)"
  shows "fits (set (object_requests e b gs)) (set (snapshot_requests e gs))
           (set (leaf_writes e b gs)) x"
proof (cases x)
  case (ExtendCached i obj)
  then show ?thesis using assms by (simp add: fits_def mem_object_requests)
next
  case (SetStateAck i v)
  then show ?thesis using assms by (simp add: fits_def mem_leaf_writes)
next
  case (JsonAwait i j)
  then show ?thesis using assms by (simp add: fits_def mem_snapshot_requests)
next
  case (JsonPush i j)
  then show ?thesis using assms by (simp add: fits_def mem_snapshot_requests)
next
  case (AddReceive key)
  then show ?thesis by (simp add: fits_def)
next
  case (Presence u p skip)
  then show ?thesis by (simp add: fits_def)
qed

lemma user_ops_mem:
  assumes "(k, u, p) \<in> set us"
  shows "set (ops_of (user_objs e u)) \<subseteq> set (user_ops e us)"
    and "set (ops_of (user_values e u p no_presence)) \<subseteq> set (user_ops e us)"
  using assms by (auto simp: user_ops_def)

lemma fits_user_objs:
  assumes "(k, u, p) \<in> set (allServersUsers b gs)" "x \<in> set (ops_of (user_objs e u))"
  shows "fits (set (object_requests e b gs)) (set (snapshot_requests e gs))
           (set (leaf_writes e b gs)) x"
proof -
  have m: "x \<in> set (user_ops e (allServersUsers b gs))"
    using user_ops_mem(1)[OF assms(1)] assms(2) by blast
  have shape: "(\<exists>i obj. x = ExtendCached i obj) \<or> (\<exists>key. x = AddReceive key)"
    using assms(2) by (auto simp: user_objs_def message_objs_def Let_def)
  then show ?thesis using m by (auto simp: fits_def mem_object_requests)
qed

lemma fits_user_values:
  assumes "(k, u, p) \<in> set (allServersUsers b gs)" "x \<in> set (ops_of (user_values e u p ps))"
  shows "fits (set (object_requests e b gs)) (set (snapshot_requests e gs))
           (set (leaf_writes e b gs)) x"
proof -
  have sub: "set (ops_of (user_values e u p no_presence)) \<subseteq> set (user_ops e (allServersUsers b gs))"
    by (rule user_ops_mem(2)[OF assms(1)])
  consider (json) "x = JsonPush (''users.'' @ ru_id u @ ''.json'') (user_json u ps)"
    | (leaf) i v where "x = SetStateAck i v" "x \<in> set (ops_of (user_values e u p no_presence))"
    | (pres) "x = Presence (ru_id u) p False"
    using assms(2) by (auto simp: user_values_def Let_def)
  then show ?thesis
  proof cases
    case json
    then show ?thesis by (simp add: fits_def suffix_def)
  next
    case leaf
    then show ?thesis using sub by (auto simp: fits_def mem_leaf_writes)
  next
    case pres
    then show ?thesis by (simp add: fits_def)
  qed
qed

lemma guild_snapshot_ids:
  assumes "x \<in> set (ops_of (guild_stmts e g))" "x = JsonAwait i j \<or> x = JsonPush i j"
  shows "prefix ''servers.'' i"
proof -
  have m: "prefix ''servers.'' i"
    if "x \<in> set (ops_of (member_stmts e g mm))" for mm
    using that assms(2) by (auto simp: member_stmts_def Let_def)
  have c: "prefix ''servers.'' i"
    if "x \<in> set (ops_of (channel_stmts e g parents ch))" for parents ch
    using that assms(2)
    by (auto simp: channel_stmts_def message_objs_def channelIdPrefix_def Let_def ops_of_append
        split: if_splits)
  show ?thesis
  proof (cases "g_members g")
    case None
    then show ?thesis using assms by (auto simp: guild_stmts_def)
  next
    case (Some members)
    show ?thesis
    proof (cases "g_channels g")
      case None
      then show ?thesis using assms Some m
        by (auto simp: guild_stmts_def ops_of_append ops_of_concat)
    next
      case (Some channels)
      then show ?thesis using assms \<open>g_members g = Some members\<close> m c
        by (auto simp: guild_stmts_def ops_of_append ops_of_concat two_waves_def
            split: if_splits)
    qed
  qed
qed

lemma servers_only_snapshots: "servers_only (set (snapshot_requests e gs))"
  unfolding servers_only_def mem_snapshot_requests guild_ops_def ops_of_concat
  using guild_snapshot_ids by auto

lemma process_user_warm:
  assumes w: "warm e X J a" and so: "servers_only J"
      and f1: "\<forall>x \<in> set (ops_of (user_objs e u)). fits X J L x"
      and f2: "\<And>ps. \<forall>x \<in> set (ops_of (user_values e u p ps)). fits X J L x"
  shows "warm e X J (snd (process_user e (u, p) a)) \<and> quiet L a (snd (process_user e (u, p) a))"
proof -
  obtain r1 a1 where r1: "run e (user_objs e u) a = (r1, a1)" by fastforce
  have s1: "warm e X J a1 \<and> quiet L a a1"
    using run_warm[OF w f1 so] r1 by simp
  show ?thesis
  proof (cases r1)
    case Throws
    then show ?thesis using r1 s1 by (simp add: process_user_def)
  next
    case (Returns x)
    obtain ps a2 where up: "updateUserPresence e (ru_id u) p True a1 = (ps, a2)" by fastforce
    have s2: "warm e X J a2 \<and> quiet L a1 a2"
      using presence_warm[of e X J a1 "ru_id u" p True] presence_users_writes[of L a1 e "ru_id u" p True]
        s1 so up by simp
    have s3: "warm e X J (snd (run e (user_values e u p ps) a2))
              \<and> quiet L a2 (snd (run e (user_values e u p ps) a2))"
      using run_warm[where a = a2 and ss = "user_values e u p ps" and L = L, OF _ _ so] s2 f2
      by blast
    have "quiet L a (snd (run e (user_values e u p ps) a2))"
      using s1 s2 s3 quiet_trans by blast
    then show ?thesis using r1 Returns up s3 by (simp add: process_user_def)
  qed
qed

lemma process_users_warm:
  assumes "warm e X J a" and so: "servers_only J"
      and "\<forall>(k, u, p) \<in> set us. \<forall>x \<in> set (ops_of (user_objs e u)). fits X J L x"
      and "\<forall>(k, u, p) \<in> set us. \<forall>ps. \<forall>x \<in> set (ops_of (user_values e u p ps)). fits X J L x"
  shows "warm e X J (snd (process_users e us a)) \<and> quiet L a (snd (process_users e us a))"
  using assms(1,3,4)
proof (induction us arbitrary: a)
  case Nil
  then show ?case by (simp add: quiet_refl)
next
  case (Cons x xs)
  obtain k u p where x: "x = (k, u, p)" by (cases x) auto
  obtain r1 a1 where r1: "process_user e (u, p) a = (r1, a1)" by fastforce
  have s1: "warm e X J a1 \<and> quiet L a a1"
    using process_user_warm[OF Cons.prems(1) so, of u L p] Cons.prems(2,3) x r1 by auto
  show ?case
  proof (cases r1)
    case Throws
    then show ?thesis using r1 s1 x by simp
  next
    case (Returns y)
    have s2: "warm e X J (snd (process_users e xs a1)) \<and> quiet L a1 (snd (process_users e xs a1))"
      using Cons.IH[of a1] s1 Cons.prems(2,3) by simp
    then show ?thesis using r1 Returns x s1 quiet_trans by auto
  qed
qed

lemma walk_warm:
  assumes "warm e (set (object_requests e b gs)) (set (snapshot_requests e gs)) a"
  shows "warm e (set (object_requests e b gs)) (set (snapshot_requests e gs)) (snd (walk e b gs a))
         \<and> quiet (set (leaf_writes e b gs)) a (snd (walk e b gs a))"
proof -
  let ?X = "set (object_requests e b gs)" and ?J = "set (snapshot_requests e gs)"
  let ?L = "set (leaf_writes e b gs)"
  obtain r1 a1 where r1: "run e (concat (map (guild_stmts e) gs)) a = (r1, a1)" by fastforce
  have fg: "\<forall>x \<in> set (ops_of (concat (map (guild_stmts e) gs))). fits ?X ?J ?L x"
    using fits_guild_ops[of _ e gs b] by (simp add: guild_ops_def)
  have s1: "warm e ?X ?J a1 \<and> quiet ?L a a1"
    using run_warm[OF assms fg servers_only_snapshots] r1 by simp
  show ?thesis
  proof (cases r1)
    case Throws
    then show ?thesis using r1 s1 by (simp add: walk_def)
  next
    case (Returns y)
    have s2: "warm e ?X ?J (snd (process_users e (allServersUsers b gs) a1))
              \<and> quiet ?L a1 (snd (process_users e (allServersUsers b gs) a1))"
      using process_users_warm[of e ?X ?J a1 "allServersUsers b gs" ?L] s1 servers_only_snapshots
        fits_user_objs[of _ _ _ b gs _ e] fits_user_values[of _ _ _ b gs _ e]
      by blast
    then show ?thesis using r1 Returns s1 quiet_trans by (auto simp: walk_def)
  qed
qed

lemma process_user_cold:
  assumes pw: "pwarm e X J Kx Kj a" and so: "servers_only J"
      and sx: "single_valued X" and sj: "single_valued J"
      and f1: "\<forall>x \<in> set (ops_of (user_objs e u)). fits X J L x"
      and f2: "\<And>ps. \<forall>x \<in> set (ops_of (user_values e u p ps)). fits X J L x"
      and ex: "process_user e (u, p) a = (Returns y, a')"
  shows "pwarm e X J (Kx \<union> kxs (ops_of (user_objs e u))) Kj a'"
proof -
  obtain r1 a1 where r1: "run e (user_objs e u) a = (r1, a1)" by fastforce
  obtain ps a2 where up: "updateUserPresence e (ru_id u) p True a1 = (ps, a2)" by fastforce
  from ex r1 up have r: "r1 = Returns ()"
    and rest: "run e (user_values e u p ps) a2 = (Returns y, a')"
    by (cases r1; simp add: process_user_def)+
  have p1: "pwarm e X J (Kx \<union> kxs (ops_of (user_objs e u))) (Kj \<union> kjs (ops_of (user_objs e u))) a1"
    using cold_run[OF pw f1 sx sj so, of "()" a1] r1 r by simp
  have p2: "pwarm e X J (Kx \<union> kxs (ops_of (user_objs e u))) (Kj \<union> kjs (ops_of (user_objs e u))) a2"
    using presence_pwarm[OF p1 so, of "ru_id u" p True] up by simp
  have p3: "pwarm e X J
              ((Kx \<union> kxs (ops_of (user_objs e u))) \<union> kxs (ops_of (user_values e u p ps)))
              ((Kj \<union> kjs (ops_of (user_objs e u))) \<union> kjs (ops_of (user_values e u p ps))) a'"
    using cold_run[OF p2 f2 sx sj so rest] .
  show ?thesis by (rule pwarm_mono[OF p3]) auto
qed

lemma process_users_cold:
  assumes "pwarm e X J Kx Kj a" and so: "servers_only J"
      and sx: "single_valued X" and sj: "single_valued J"
      and "\<forall>(k, u, p) \<in> set us. \<forall>x \<in> set (ops_of (user_objs e u)). fits X J L x"
      and "\<forall>(k, u, p) \<in> set us. \<forall>ps. \<forall>x \<in> set (ops_of (user_values e u p ps)). fits X J L x"
      and "process_users e us a = (Returns y, a')"
  shows "pwarm e X J (Kx \<union> (\<Union>(k, u, p) \<in> set us. kxs (ops_of (user_objs e u)))) Kj a'"
  using assms(1,5,6,7)
proof (induction us arbitrary: a Kx)
  case Nil
  then show ?case by simp
next
  case (Cons x xs)
  obtain k u p where x: "x = (k, u, p)" by (cases x) auto
  obtain r1 a1 where r1: "process_user e (u, p) a = (r1, a1)" by fastforce
  from Cons.prems(4) x r1 have r: "r1 = Returns ()"
    and rest: "process_users e xs a1 = (Returns y, a')"
    by (cases r1; simp)+
  have p1: "pwarm e X J (Kx \<union> kxs (ops_of (user_objs e u))) Kj a1"
    using process_user_cold[OF Cons.prems(1) so sx sj, of u L p "()" a1] Cons.prems(2,3) x r1 r
    by auto
  have "pwarm e X J ((Kx \<union> kxs (ops_of (user_objs e u)))
          \<union> (\<Union>(k, u, p) \<in> set xs. kxs (ops_of (user_objs e u)))) Kj a'"
    using Cons.IH[OF p1 _ _ rest] Cons.prems(2,3) by simp
  then show ?case using x by (simp add: Un_assoc)
qed

lemma mem_user_ops:
  "x \<in> set (user_ops e us) \<longleftrightarrow>
     (\<exists>k u p. (k, u, p) \<in> set us \<and>
        (x \<in> set (ops_of (user_objs e u)) \<or> x \<in> set (ops_of (user_values e u p no_presence))))"
  unfolding user_ops_def by force

lemma user_values_no_objects: "ExtendCached i obj \<notin> set (ops_of (user_values e u p ps))"
  by (simp add: user_values_def Let_def)

lemma walk_cold:
  assumes sx: "single_valued (set (object_requests e b gs))"
      and sj: "single_valued (set (snapshot_requests e gs))"
      and ex: "walk e b gs a = (Returns y, a')"
  shows "warm e (set (object_requests e b gs)) (set (snapshot_requests e gs)) a'"
proof -
  let ?X = "set (object_requests e b gs)" and ?J = "set (snapshot_requests e gs)"
  let ?L = "set (leaf_writes e b gs)" and ?us = "allServersUsers b gs"
  obtain r1 a1 where r1: "run e (concat (map (guild_stmts e) gs)) a = (r1, a1)" by fastforce
  from ex r1 have r: "r1 = Returns ()" and rest: "process_users e ?us a1 = (Returns y, a')"
    by (cases r1; simp add: walk_def)+
  have fg: "\<forall>x \<in> set (ops_of (concat (map (guild_stmts e) gs))). fits ?X ?J ?L x"
    using fits_guild_ops[of _ e gs b] by (simp add: guild_ops_def)
  have p0: "pwarm e ?X ?J {} {} a" by (simp add: pwarm_def)
  have p1: "pwarm e ?X ?J (kxs (guild_ops e gs)) (kjs (guild_ops e gs)) a1"
    using cold_run[OF p0 fg sx sj servers_only_snapshots, of "()" a1] r1 r
    by (simp add: guild_ops_def)
  have fu1: "\<forall>(k, u, p) \<in> set ?us. \<forall>x \<in> set (ops_of (user_objs e u)). fits ?X ?J ?L x"
    using fits_user_objs[of _ _ _ b gs _ e] by auto
  have fu2: "\<forall>(k, u, p) \<in> set ?us. \<forall>ps. \<forall>x \<in> set (ops_of (user_values e u p ps)). fits ?X ?J ?L x"
    using fits_user_values[of _ _ _ b gs _ e] by auto
  have p2: "pwarm e ?X ?J
              (kxs (guild_ops e gs) \<union> (\<Union>(k, u, p) \<in> set ?us. kxs (ops_of (user_objs e u))))
              (kjs (guild_ops e gs)) a'"
    by (rule process_users_cold[OF p1 servers_only_snapshots sx sj fu1 fu2 rest])
  have kxI: "i \<in> kxs xs" if "ExtendCached i obj \<in> set xs" for i obj xs
    using that unfolding kxs_def kx_def by (intro UN_I[of "ExtendCached i obj"]) simp_all
  have kx: "i \<in> kxs (guild_ops e gs) \<union> (\<Union>(k, u, p) \<in> set ?us. kxs (ops_of (user_objs e u)))"
    if "(i, obj) \<in> ?X" for i obj
  proof -
    from that have "ExtendCached i obj \<in> set (guild_ops e gs) \<union> set (user_ops e ?us)"
      by (simp only: mem_object_requests)
    then consider "ExtendCached i obj \<in> set (guild_ops e gs)"
      | "ExtendCached i obj \<in> set (user_ops e ?us)"
      by blast
    then show ?thesis
    proof cases
      case 1
      then show ?thesis using kxI by blast
    next
      case 2
      then obtain k u p where m: "(k, u, p) \<in> set ?us"
        and "ExtendCached i obj \<in> set (ops_of (user_objs e u))"
        using user_values_no_objects[of i obj e] unfolding mem_user_ops by blast
      then have "i \<in> kxs (ops_of (user_objs e u))" using kxI by blast
      then show ?thesis using m by blast
    qed
  qed
  have kj: "i \<in> kjs (guild_ops e gs)" if "(i, j) \<in> ?J" for i j
  proof -
    from that have "JsonAwait i j \<in> set (guild_ops e gs) \<or> JsonPush i j \<in> set (guild_ops e gs)"
      by (simp only: mem_snapshot_requests)
    then consider "JsonAwait i j \<in> set (guild_ops e gs)" | "JsonPush i j \<in> set (guild_ops e gs)"
      by blast
    then show ?thesis
    proof cases
      case 1
      then show ?thesis unfolding kjs_def kj_def by (intro UN_I[of "JsonAwait i j"]) simp_all
    next
      case 2
      then show ?thesis unfolding kjs_def kj_def by (intro UN_I[of "JsonPush i j"]) simp_all
    qed
  qed
  have px: "(ident, obj) \<in> ?X \<and> ident \<in> kxs (guild_ops e gs)
              \<union> (\<Union>(k, u, p) \<in> set ?us. kxs (ops_of (user_objs e u)))
            \<longrightarrow> extendObjectCache a' ident = Some obj" for ident obj
    using p2 unfolding pwarm_def by (elim conjE allE)
  have pj: "(ident, json) \<in> ?J \<and> ident \<in> kjs (guild_ops e gs)
            \<longrightarrow> jsonStateCache a' (namespace e @ ''.'' @ ident) = Some json" for ident json
    using p2 unfolding pwarm_def by (elim conjE allE)
  show ?thesis unfolding warm_def
  proof (intro conjI allI impI)
    fix i obj assume m: "(i, obj) \<in> ?X"
    from m kx[OF m] have "(i, obj) \<in> ?X \<and> i \<in> kxs (guild_ops e gs)
              \<union> (\<Union>(k, u, p) \<in> set ?us. kxs (ops_of (user_objs e u)))"
      by (rule conjI)
    with px[of i obj] show "extendObjectCache a' i = Some obj" by (rule mp)
  next
    fix i j assume m: "(i, j) \<in> ?J"
    from m kj[OF m] have "(i, j) \<in> ?J \<and> i \<in> kjs (guild_ops e gs)" by (rule conjI)
    with pj[of i j] show "jsonStateCache a' (namespace e @ ''.'' @ i) = Some j" by (rule mp)
  qed
qed

lemma untouched_refl: "untouched e ds a a"
  by (simp add: untouched_def)

lemma untouched_trans:
  assumes "untouched e ds1 a b" "untouched e ds2 b c"
  shows "untouched e (ds1 @ ds2) a c"
proof -
  from assms obtain n1 n2 where n1: "store_calls b = store_calls a @ n1" "\<forall>c \<in> set n1. \<exists>i. c = DelObject i True"
    and n2: "store_calls c = store_calls b @ n2" "\<forall>c \<in> set n2. \<exists>i. c = DelObject i True"
    unfolding untouched_def by blast
  have calls: "\<exists>new. store_calls c = store_calls a @ new \<and> (\<forall>c \<in> set new. \<exists>i. c = DelObject i True)"
    using n1 n2 by (intro exI[of _ "n1 @ n2"]) auto
  have x: "extendObjectCache c k = extendObjectCache a k" if "\<forall>d \<in> set (ds1 @ ds2). \<not> prefix d k" for k
    using that assms unfolding untouched_def by (metis Un_iff set_append)
  have j: "jsonStateCache c k = jsonStateCache a k"
    if "\<forall>d \<in> set (ds1 @ ds2). k \<noteq> namespace e @ ''.'' @ d @ ''.json''" for k
    using that assms unfolding untouched_def by (metis Un_iff set_append)
  show ?thesis unfolding untouched_def using calls x j by blast
qed

lemma forget_untouched:
  "forget e kind idPath a = (r, a1) \<Longrightarrow> untouched e [kind @ ''.'' @ idPath] a a1"
  by (auto simp: forget_def delObjectAsyncCached_def call_store_def untouched_def)

lemma sweep_servers_untouched:
  "sweep_servers e known rows a = (r, a') \<Longrightarrow> untouched e (stale_servers e known rows) a a'"
proof (induction rows arbitrary: a)
  case Nil
  then show ?case by (simp add: untouched_refl stale_servers_def)
next
  case (Cons ident rows)
  show ?case
  proof (cases "match_reServersChannels (namespace e) ident")
    case None
    then show ?thesis using Cons by (simp add: stale_servers_def)
  next
    case (Some idPath)
    show ?thesis
    proof (cases "ident \<in> set known")
      case True
      then show ?thesis using Cons Some by (simp add: stale_servers_def)
    next
      case False
      obtain r1 a1 where f: "forget e ''servers'' idPath a = (r1, a1)" by fastforce
      have u1: "untouched e [''servers.'' @ idPath] a a1" using forget_untouched[OF f] by simp
      have st: "stale_servers e known (ident # rows) = [''servers.'' @ idPath] @ stale_servers e known rows"
        using Some False by (simp add: stale_servers_def)
      show ?thesis
      proof (cases r1)
        case Throws
        then have "a' = a1" using Cons.prems Some False f by simp
        then have "untouched e ([''servers.'' @ idPath] @ stale_servers e known rows) a a'"
          using untouched_trans[OF u1 untouched_refl] by simp
        then show ?thesis using st by simp
      next
        case (Returns u)
        then have "sweep_servers e known rows a1 = (r, a')" using Cons.prems Some False f by simp
        then have "untouched e (stale_servers e known rows) a1 a'" by (rule Cons.IH)
        then show ?thesis using untouched_trans[OF u1] st by simp
      qed
    qed
  qed
qed

lemma sweep_users_untouched:
  "sweep_users e users rows a = (r, a') \<Longrightarrow> untouched e (stale_users e users rows) a a'"
proof (induction rows arbitrary: a)
  case Nil
  then show ?case by (simp add: untouched_refl stale_users_def)
next
  case (Cons ident rows)
  show ?case
  proof (cases "match_reUsers (namespace e) ident")
    case None
    then show ?thesis using Cons by (simp add: stale_users_def)
  next
    case (Some idPath)
    show ?thesis
    proof (cases "idPath \<in> set users")
      case True
      then show ?thesis using Cons Some by (simp add: stale_users_def)
    next
      case False
      obtain r1 a1 where f: "forget e ''users'' idPath a = (r1, a1)" by fastforce
      have u1: "untouched e [''users.'' @ idPath] a a1" using forget_untouched[OF f] by simp
      have st: "stale_users e users (ident # rows) = [''users.'' @ idPath] @ stale_users e users rows"
        using Some False by (simp add: stale_users_def)
      show ?thesis
      proof (cases r1)
        case Throws
        then have "a' = a1" using Cons.prems Some False f by simp
        then have "untouched e ([''users.'' @ idPath] @ stale_users e users rows) a a'"
          using untouched_trans[OF u1 untouched_refl] by simp
        then show ?thesis using st by simp
      next
        case (Returns u)
        then have "sweep_users e users rows a1 = (r, a')" using Cons.prems Some False f by simp
        then have "untouched e (stale_users e users rows) a1 a'" by (rule Cons.IH)
        then show ?thesis using untouched_trans[OF u1] st by simp
      qed
    qed
  qed
qed

lemma untouched_more:
  assumes "untouched e ds a a'" "set ds \<subseteq> set ds'"
  shows "untouched e ds' a a'"
  using assms unfolding untouched_def by (elim conjE, intro conjI) blast+

lemma sweep_untouched:
  assumes "sweep e listing known users a = (r, a')"
  shows "untouched e (deleted_ids e listing known users) a a'"
proof (cases "servers_rows listing")
  case None
  then show ?thesis using assms by (simp add: sweep_def untouched_def)
next
  case (Some srows)
  obtain r1 a1 where s1: "sweep_servers e known srows a = (r1, a1)" by fastforce
  have u1: "untouched e (stale_servers e known srows) a a1" by (rule sweep_servers_untouched[OF s1])
  show ?thesis
  proof (cases r1)
    case Throws
    then have "a' = a1" using assms Some s1 by (simp add: sweep_def)
    then show ?thesis using untouched_more[OF u1, of "deleted_ids e listing known users"] Some
      by (simp add: deleted_ids_def)
  next
    case (Returns u)
    show ?thesis
    proof (cases "users_rows listing")
      case None
      then have "a' = a1" using assms Some s1 Returns by (simp add: sweep_def)
      then show ?thesis using untouched_more[OF u1, of "deleted_ids e listing known users"] Some
        by (simp add: deleted_ids_def)
    next
      case (Some urows)
      then have "sweep_users e users urows a1 = (r, a')"
        using assms \<open>servers_rows listing = Some srows\<close> s1 Returns by (simp add: sweep_def)
      then have "untouched e (stale_users e users urows) a1 a'" by (rule sweep_users_untouched)
      then show ?thesis using untouched_trans[OF u1] Some \<open>servers_rows listing = Some srows\<close>
        by (simp add: deleted_ids_def)
    qed
  qed
qed

lemma warm_untouched:
  assumes w: "warm e X J a" and u: "untouched e ds a a'"
      and hx: "\<And>d i obj. d \<in> set ds \<Longrightarrow> (i, obj) \<in> X \<Longrightarrow> \<not> prefix d i"
      and hj: "\<And>d i j. d \<in> set ds \<Longrightarrow> (i, j) \<in> J \<Longrightarrow> i \<noteq> d @ ''.json''"
  shows "warm e X J a'"
  unfolding warm_def
proof (intro conjI allI impI)
  fix i obj assume m: "(i, obj) \<in> X"
  have "\<forall>d \<in> set ds. \<not> prefix d i" using hx m by blast
  then have "extendObjectCache a' i = extendObjectCache a i" using u unfolding untouched_def by blast
  then show "extendObjectCache a' i = Some obj" using w m unfolding warm_def by simp
next
  fix i j assume m: "(i, j) \<in> J"
  have "\<forall>d \<in> set ds. namespace e @ ''.'' @ i \<noteq> namespace e @ ''.'' @ d @ ''.json''"
    using hj m by auto
  then have "jsonStateCache a' (namespace e @ ''.'' @ i) = jsonStateCache a (namespace e @ ''.'' @ i)"
    using u unfolding untouched_def by blast
  then show "jsonStateCache a' (namespace e @ ''.'' @ i) = Some j" using w m unfolding warm_def by simp
qed

lemma drop_earlier:
  assumes "c \<in> set (drop n xs)" "prefix xs ys"
  shows "c \<in> set (drop n ys)"
proof -
  from assms(2) obtain zs where "ys = xs @ zs" by (auto simp: prefix_def)
  then show ?thesis using assms(1) by auto
qed

lemma exec_op_issues:
  "SetState i v True \<in> set (drop (length (store_calls a)) (store_calls (snd (exec_op e (SetStateAck i v) a))))"
  by (simp add: call_store_def)

lemma exec_all_issues:
  assumes "SetStateAck i v \<in> set xs"
  shows "SetState i v True \<in> set (drop (length (store_calls a)) (store_calls (snd (exec_all e xs a))))"
  using assms
proof (induction xs arbitrary: a)
  case Nil
  then show ?case by simp
next
  case (Cons x xs)
  obtain r1 a1 where x1: "exec_op e x a = (r1, a1)" by fastforce
  obtain r2 a2 where x2: "exec_all e xs a1 = (r2, a2)" by fastforce
  have p1: "prefix (store_calls a) (store_calls a1)" using exec_op_calls[of a e x] x1 by simp
  have p2: "prefix (store_calls a1) (store_calls a2)" using exec_all_calls[of a1 e xs] x2 by simp
  have res: "snd (exec_all e (x # xs) a) = a2" using x1 x2 by simp
  show ?case
  proof (cases "x = SetStateAck i v")
    case True
    then have "SetState i v True \<in> set (drop (length (store_calls a)) (store_calls a1))"
      using exec_op_issues[of i v a e] x1 by simp
    then show ?thesis using drop_earlier[OF _ p2] res by simp
  next
    case False
    then have "SetStateAck i v \<in> set xs" using Cons.prems by simp
    then have "SetState i v True \<in> set (drop (length (store_calls a1))
                 (store_calls (snd (exec_all e xs a1))))"
      by (rule Cons.IH)
    then have "SetState i v True \<in> set (drop (length (store_calls a1)) (store_calls a2))"
      using x2 by simp
    then show ?thesis using drop_mono_set[OF p1] res by simp
  qed
qed

lemma run_issues:
  assumes "run e ss a = (Returns u, a')" "SetStateAck i v \<in> set (ops_of ss)"
  shows "SetState i v True \<in> set (drop (length (store_calls a)) (store_calls a'))"
  using assms
proof (induction ss arbitrary: a)
  case Nil
  then show ?case by simp
next
  case (Cons s ss)
  show ?case
  proof (cases s)
    case Raise
    then show ?thesis using Cons.prems by simp
  next
    case (Await x)
    obtain r1 a1 where x1: "exec_op e x a = (r1, a1)" by fastforce
    from Cons.prems(1) Await x1 have rest: "run e ss a1 = (Returns u, a')"
      by (cases r1; simp)
    have p1: "prefix (store_calls a) (store_calls a1)" using exec_op_calls[of a e x] x1 by simp
    have p2: "prefix (store_calls a1) (store_calls a')" using run_calls[of a1 e ss] rest by simp
    show ?thesis
    proof (cases "x = SetStateAck i v")
      case True
      then have "SetState i v True \<in> set (drop (length (store_calls a)) (store_calls a1))"
        using exec_op_issues[of i v a e] x1 by simp
      then show ?thesis by (rule drop_earlier[OF _ p2])
    next
      case False
      then have "SetStateAck i v \<in> set (ops_of ss)" using Cons.prems(2) Await by simp
      then have "SetState i v True \<in> set (drop (length (store_calls a1)) (store_calls a'))"
        using Cons.IH[OF rest] by simp
      then show ?thesis by (rule drop_mono_set[OF p1])
    qed
  next
    case (All xs)
    obtain r1 a1 where x1: "exec_all e xs a = (r1, a1)" by fastforce
    from Cons.prems(1) All x1 have rest: "run e ss a1 = (Returns u, a')"
      by (cases r1; simp)
    have p1: "prefix (store_calls a) (store_calls a1)" using exec_all_calls[of a e xs] x1 by simp
    have p2: "prefix (store_calls a1) (store_calls a')" using run_calls[of a1 e ss] rest by simp
    show ?thesis
    proof (cases "SetStateAck i v \<in> set xs")
      case True
      then have "SetState i v True \<in> set (drop (length (store_calls a)) (store_calls a1))"
        using exec_all_issues[of i v xs a e] x1 by simp
      then show ?thesis by (rule drop_earlier[OF _ p2])
    next
      case False
      then have "SetStateAck i v \<in> set (ops_of ss)" using Cons.prems(2) All by simp
      then have "SetState i v True \<in> set (drop (length (store_calls a1)) (store_calls a'))"
        using Cons.IH[OF rest] by simp
      then show ?thesis by (rule drop_mono_set[OF p1])
    qed
  qed
qed

lemma user_values_leaves:
  "SetStateAck i v \<in> set (ops_of (user_values e u p ps)) \<longleftrightarrow>
   SetStateAck i v \<in> set (ops_of (user_values e u p no_presence))"
  by (simp add: user_values_def Let_def)

lemma user_objs_no_leaves: "SetStateAck i v \<notin> set (ops_of (user_objs e u))"
  by (auto simp: user_objs_def message_objs_def Let_def)

lemma process_user_issues:
  assumes "process_user e (u, p) a = (Returns y, a')"
      and "SetStateAck i v \<in> set (ops_of (user_values e u p no_presence))"
  shows "SetState i v True \<in> set (drop (length (store_calls a)) (store_calls a'))"
proof -
  obtain r1 a1 where r1: "run e (user_objs e u) a = (r1, a1)" by fastforce
  obtain ps a2 where up: "updateUserPresence e (ru_id u) p True a1 = (ps, a2)" by fastforce
  from assms(1) r1 up have rest: "run e (user_values e u p ps) a2 = (Returns y, a')"
    by (cases r1; simp add: process_user_def)
  have p1: "prefix (store_calls a) (store_calls a1)"
    using run_calls[of a e "user_objs e u"] r1 by simp
  have p2: "prefix (store_calls a1) (store_calls a2)"
    using updateUserPresence_calls[of a1 e "ru_id u" p True] up by simp
  have p12: "prefix (store_calls a) (store_calls a2)" using p1 p2 by (rule prefix_order.trans)
  have "SetStateAck i v \<in> set (ops_of (user_values e u p ps))"
    using assms(2) user_values_leaves by blast
  then have "SetState i v True \<in> set (drop (length (store_calls a2)) (store_calls a'))"
    by (rule run_issues[OF rest])
  then show ?thesis by (rule drop_mono_set[OF p12])
qed

lemma process_users_issues:
  assumes "process_users e us a = (Returns y, a')" "(k, u, p) \<in> set us"
      and "SetStateAck i v \<in> set (ops_of (user_values e u p no_presence))"
  shows "SetState i v True \<in> set (drop (length (store_calls a)) (store_calls a'))"
  using assms(1,2)
proof (induction us arbitrary: a)
  case Nil
  then show ?case by simp
next
  case (Cons x xs)
  obtain k' u' p' where x: "x = (k', u', p')" by (cases x) auto
  obtain r1 a1 where r1: "process_user e (u', p') a = (r1, a1)" by fastforce
  from Cons.prems(1) x r1 have r: "r1 = Returns ()"
    and rest: "process_users e xs a1 = (Returns y, a')"
    by (cases r1; simp)+
  have p1: "prefix (store_calls a) (store_calls a1)"
    using process_user_calls[of a e "(u', p')"] r1 by simp
  have p2: "prefix (store_calls a1) (store_calls a')"
    using process_users_calls[of a1 e xs] rest by simp
  show ?case
  proof (cases "(k, u, p) = x")
    case True
    then have "SetState i v True \<in> set (drop (length (store_calls a)) (store_calls a1))"
      using process_user_issues[of e u p a "()" a1 i v] assms(3) x r1 r by simp
    then show ?thesis by (rule drop_earlier[OF _ p2])
  next
    case False
    then have "(k, u, p) \<in> set xs" using Cons.prems(2) by simp
    then have "SetState i v True \<in> set (drop (length (store_calls a1)) (store_calls a'))"
      using Cons.IH[OF rest] by simp
    then show ?thesis by (rule drop_mono_set[OF p1])
  qed
qed

lemma walk_issues:
  assumes "walk e b gs a = (Returns y, a')" "c \<in> set (leaf_writes e b gs)"
  shows "c \<in> set (drop (length (store_calls a)) (store_calls a'))"
proof -
  obtain r1 a1 where r1: "run e (concat (map (guild_stmts e) gs)) a = (r1, a1)" by fastforce
  from assms(1) r1 have r: "r1 = Returns ()"
    and rest: "process_users e (allServersUsers b gs) a1 = (Returns y, a')"
    by (cases r1; simp add: walk_def)+
  have p1: "prefix (store_calls a) (store_calls a1)"
    using run_calls[of a e "concat (map (guild_stmts e) gs)"] r1 by simp
  have p2: "prefix (store_calls a1) (store_calls a')"
    using process_users_calls[of a1 e "allServersUsers b gs"] rest by simp
  from assms(2) obtain i v where c: "c = SetState i v True"
    by (auto simp: leaf_writes_def split: op.splits)
  then have "SetStateAck i v \<in> set (guild_ops e gs) \<union> set (user_ops e (allServersUsers b gs))"
    using assms(2) by (simp only: mem_leaf_writes)
  then consider (g) "SetStateAck i v \<in> set (guild_ops e gs)"
    | (u) "SetStateAck i v \<in> set (user_ops e (allServersUsers b gs))" by blast
  then show ?thesis
  proof cases
    case g
    then have "SetState i v True \<in> set (drop (length (store_calls a)) (store_calls a1))"
      using run_issues[of e "concat (map (guild_stmts e) gs)" a "()" a1 i v] r1 r
      by (simp add: guild_ops_def)
    then show ?thesis using c drop_earlier[OF _ p2] by simp
  next
    case u
    then obtain k uu p where m: "(k, uu, p) \<in> set (allServersUsers b gs)"
      and "SetStateAck i v \<in> set (ops_of (user_values e uu p no_presence))"
      using user_objs_no_leaves[of i v e] unfolding mem_user_ops by blast
    then have "SetState i v True \<in> set (drop (length (store_calls a1)) (store_calls a'))"
      using process_users_issues[OF rest] by blast
    then show ?thesis using c drop_mono_set[OF p1] by simp
  qed
qed

lemma quiet_calls:
  assumes "quiet L a a'" "c \<in> set (drop (length (store_calls a)) (store_calls a'))"
  shows "c \<in> L \<or> is_user_write c"
  using assms unfolding quiet_def by auto

lemma untouched_calls:
  assumes "untouched e ds a a'" "c \<in> set (drop (length (store_calls a)) (store_calls a'))"
  shows "\<exists>i. c = DelObject i True"
  using assms unfolding untouched_def by auto

lemma split_calls:
  assumes "prefix xs ys" "prefix ys zs" "c \<in> set (drop (length xs) zs)"
  shows "c \<in> set (drop (length xs) ys) \<or> c \<in> set (drop (length ys) zs)"
proof -
  from assms obtain u v where "ys = xs @ u" "zs = ys @ v" by (auto simp: prefix_def)
  then show ?thesis using assms(3) by auto
qed

lemma leaf_writes_are_SetState: "c \<in> set (leaf_writes e b gs) \<Longrightarrow> \<exists>i v. c = SetState i v True"
  by (auto simp: leaf_writes_def split: op.splits)

lemma user_writes_are_SetState: "is_user_write c \<Longrightarrow> \<exists>i v. c = SetState i v True"
  by (cases c) (auto simp: is_user_write_def)

lemma pass_issues_leaf_writes:
  assumes nu: "\<not> unloaded a1"
      and b: "client_user r = Some b" and g: "guilds r = Some gs"
      and ret: "fst (updateGuilds e r listing a1) = Returns ()"
  shows "set (leaf_writes e b (fetched gs))
           \<subseteq> set (drop (length (store_calls a1)) (store_calls (snd (updateGuilds e r listing a1))))"
proof
  let ?gs = "fetched gs"
  let ?known = "knownServersAndChannelsIds e ?gs" and ?users = "map fst (allServersUsers b ?gs)"
  fix c assume c: "c \<in> set (leaf_writes e b ?gs)"
  obtain r2 a2 where w2: "walk e b ?gs a1 = (r2, a2)" by fastforce
  obtain r3 a3 where s2: "sweep e listing ?known ?users a2 = (r3, a3)" by fastforce
  have u2: "untouched e (deleted_ids e listing ?known ?users) a2 a3" by (rule sweep_untouched[OF s2])
  have ps: "prefix (store_calls a2) (store_calls a3)" using u2 by (auto simp: untouched_def)
  have res: "updateGuilds e r listing a1 = (case r2 of Throws \<Rightarrow> (Throws, a2) | Returns _ \<Rightarrow> (r3, a3))"
    using nu b g w2 s2 by (cases r2; simp add: updateGuilds_def)
  from ret res have r2: "r2 = Returns ()" by (cases r2; simp)
  have "c \<in> set (drop (length (store_calls a1)) (store_calls a2))"
    using walk_issues[of e b ?gs a1 "()" a2 c] w2 r2 c by simp
  then have "c \<in> set (drop (length (store_calls a1)) (store_calls a3))"
    by (rule drop_earlier[OF _ ps])
  then show "c \<in> set (drop (length (store_calls a1)) (store_calls (snd (updateGuilds e r listing a1))))"
    using res r2 by simp
qed

lemma single_valued_distinct_keys: "distinct (map fst xs) \<Longrightarrow> single_valued (set xs)"
  by (rule single_valuedI) (metis eq_key_imp_eq_value)

lemma guild1_object_ids: "distinct (map fst (object_requests env0 ''9'' [guild1]))"
  by code_simp

lemma guild1_snapshot_ids: "distinct (map fst (snapshot_requests env0 [guild1]))"
  by code_simp

lemma guild1_objects_kept:
  "\<forall>d \<in> set (deleted_ids env0 listing1 (knownServersAndChannelsIds env0 [guild1])
               (map fst (allServersUsers ''9'' [guild1]))).
     \<forall>(i, obj) \<in> set (object_requests env0 ''9'' [guild1]). \<not> prefix d i"
  by code_simp

lemma guild1_snapshots_kept:
  "\<forall>d \<in> set (deleted_ids env0 listing1 (knownServersAndChannelsIds env0 [guild1])
               (map fst (allServersUsers ''9'' [guild1]))).
     \<forall>(i, j) \<in> set (snapshot_requests env0 [guild1]). i \<noteq> d @ ''.json''"
  by code_simp

lemma guild1_tag_leaf:
  "SetState ''servers.1.members.5.tag'' (JStr ''alice#0005'') True
     \<in> set (leaf_writes env0 ''9'' [guild1])"
  by code_simp

lemma guild1_memberCount_leaf:
  "SetState ''servers.1.channels.2.channels.3.memberCount'' (JNum 1) True
     \<in> set (leaf_writes env0 ''9'' [guild1])"
  by code_simp

text \<open>
  Claim C2, amended. Let a first pass return, with the adapter not unloaded, every object
  id and every snapshot id requested with one value only, and none of the requested ids
  deleted by the sweep of that pass. Then a second pass over the same remote graph issues
  no \<open>extendObject\<close> call at all: every store call it adds is a recursive delete of the
  sweep, a leaf write, or a write of a user's presence leaves or snapshot. The leaf writes
  are not suppressed: when the second pass returns, every leaf value has been written
  again.
\<close>

theorem second_pass_issues_no_definition_upsert:
  assumes p1: "updateGuilds e r listing a = (Returns (), a')"
      and nu: "\<not> unloaded a"
      and b: "client_user r = Some b" and g: "guilds r = Some gs"
      and sx: "single_valued (set (object_requests e b (fetched gs)))"
      and sj: "single_valued (set (snapshot_requests e (fetched gs)))"
      and hx: "\<forall>d \<in> set (deleted_ids e listing (knownServersAndChannelsIds e (fetched gs))
                          (map fst (allServersUsers b (fetched gs)))).
                 \<forall>(i, obj) \<in> set (object_requests e b (fetched gs)). \<not> prefix d i"
      and hj: "\<forall>d \<in> set (deleted_ids e listing (knownServersAndChannelsIds e (fetched gs))
                          (map fst (allServersUsers b (fetched gs)))).
                 \<forall>(i, j) \<in> set (snapshot_requests e (fetched gs)). i \<noteq> d @ ''.json''"
  shows "(\<forall>c \<in> set (drop (length (store_calls a')) (store_calls (snd (updateGuilds e r listing' a')))).
            (\<exists>i. c = DelObject i True) \<or> c \<in> set (leaf_writes e b (fetched gs)) \<or> is_user_write c)
       \<and> (\<forall>c \<in> set (drop (length (store_calls a')) (store_calls (snd (updateGuilds e r listing' a')))).
            \<forall>i obj. c \<noteq> ExtendObject i obj)
       \<and> (fst (updateGuilds e r listing' a') = Returns () \<longrightarrow>
            set (leaf_writes e b (fetched gs))
              \<subseteq> set (drop (length (store_calls a')) (store_calls (snd (updateGuilds e r listing' a')))))"
proof -
  let ?gs = "fetched gs"
  let ?X = "set (object_requests e b ?gs)" and ?J = "set (snapshot_requests e ?gs)"
  let ?L = "set (leaf_writes e b ?gs)"
  let ?known = "knownServersAndChannelsIds e ?gs" and ?users = "map fst (allServersUsers b ?gs)"
  have nu1: "\<not> unloaded a'" using updateGuilds_unloaded[of e r listing a] p1 nu by simp
  obtain rw aw where w1: "walk e b ?gs a = (rw, aw)" by fastforce
  from p1 nu b g w1 have rw: "rw = Returns ()"
    and s1: "sweep e listing ?known ?users aw = (Returns (), a')"
    by (cases rw; simp add: updateGuilds_def)+
  have warm_w: "warm e ?X ?J aw" using walk_cold[OF sx sj] w1 rw by simp
  have u1: "untouched e (deleted_ids e listing ?known ?users) aw a'" by (rule sweep_untouched[OF s1])
  have warm1: "warm e ?X ?J a'"
  proof (rule warm_untouched[OF warm_w u1])
    fix d i obj assume "d \<in> set (deleted_ids e listing ?known ?users)" "(i, obj) \<in> ?X"
    then show "\<not> prefix d i" using hx by blast
  next
    fix d i j assume "d \<in> set (deleted_ids e listing ?known ?users)" "(i, j) \<in> ?J"
    then show "i \<noteq> d @ ''.json''" using hj by blast
  qed
  obtain r2 a2 where w2: "walk e b ?gs a' = (r2, a2)" by fastforce
  have q2: "quiet ?L a' a2" using walk_warm[OF warm1] w2 by simp
  have pw: "prefix (store_calls a') (store_calls a2)" using walk_calls[of a' e b ?gs] w2 by simp
  obtain r3 a3 where s2: "sweep e listing' ?known ?users a2 = (r3, a3)" by fastforce
  have u2: "untouched e (deleted_ids e listing' ?known ?users) a2 a3" by (rule sweep_untouched[OF s2])
  have ps: "prefix (store_calls a2) (store_calls a3)" using u2 by (auto simp: untouched_def)
  have res: "updateGuilds e r listing' a' = (case r2 of Throws \<Rightarrow> (Throws, a2) | Returns _ \<Rightarrow> (r3, a3))"
    using nu1 b g w2 s2 by (cases r2; simp add: updateGuilds_def)
  let ?new = "drop (length (store_calls a')) (store_calls (snd (updateGuilds e r listing' a')))"
  have ok: "(\<exists>i. c = DelObject i True) \<or> c \<in> ?L \<or> is_user_write c" if "c \<in> set ?new" for c
  proof (cases r2)
    case Throws
    then have "c \<in> set (drop (length (store_calls a')) (store_calls a2))" using that res by simp
    then show ?thesis using quiet_calls[OF q2] by blast
  next
    case (Returns u)
    then have "c \<in> set (drop (length (store_calls a')) (store_calls a3))" using that res by simp
    then consider "c \<in> set (drop (length (store_calls a')) (store_calls a2))"
      | "c \<in> set (drop (length (store_calls a2)) (store_calls a3))"
      using split_calls[OF pw ps] by blast
    then show ?thesis
    proof cases
      case 1
      then show ?thesis using quiet_calls[OF q2] by blast
    next
      case 2
      then show ?thesis using untouched_calls[OF u2] by blast
    qed
  qed
  have noext: "c \<noteq> ExtendObject i obj" if "c \<in> set ?new" for c i obj
    using ok[OF that] leaf_writes_are_SetState[of c e b ?gs] user_writes_are_SetState[of c] by auto
  have again: "?L \<subseteq> set ?new" if "fst (updateGuilds e r listing' a') = Returns ()"
    by (rule pass_issues_leaf_writes[OF nu1 b g that])
  show ?thesis using ok noext again by blast
qed

theorem second_pass_issues_no_definition_upsert_witness:
  "fst pass1 = Returns () \<and> \<not> unloaded adapter1
   \<and> single_valued (set (object_requests env0 ''9'' [guild1]))
   \<and> single_valued (set (snapshot_requests env0 [guild1]))
   \<and> \<not> (\<exists>i obj. ExtendObject i obj
          \<in> set (drop (length (store_calls (snd pass1))) (store_calls (snd pass2))))
   \<and> set (leaf_writes env0 ''9'' [guild1])
        \<subseteq> set (drop (length (store_calls (snd pass1))) (store_calls (snd pass2)))"
proof -
  have p: "updateGuilds env0 remote1 listing1 adapter1 = (Returns (), snd pass1)"
    using pass1_returns by (simp add: pass1_def prod_eq_iff)
  have sx: "single_valued (set (object_requests env0 ''9'' (fetched [Some guild1])))"
    unfolding fetched_guild1 by (rule single_valued_distinct_keys[OF guild1_object_ids])
  have sj: "single_valued (set (snapshot_requests env0 (fetched [Some guild1])))"
    unfolding fetched_guild1 by (rule single_valued_distinct_keys[OF guild1_snapshot_ids])
  have hx: "\<forall>d \<in> set (deleted_ids env0 listing1 (knownServersAndChannelsIds env0 (fetched [Some guild1]))
               (map fst (allServersUsers ''9'' (fetched [Some guild1])))).
     \<forall>(i, obj) \<in> set (object_requests env0 ''9'' (fetched [Some guild1])). \<not> prefix d i"
    unfolding fetched_guild1 by (rule guild1_objects_kept)
  have hj: "\<forall>d \<in> set (deleted_ids env0 listing1 (knownServersAndChannelsIds env0 (fetched [Some guild1]))
               (map fst (allServersUsers ''9'' (fetched [Some guild1])))).
     \<forall>(i, j) \<in> set (snapshot_requests env0 (fetched [Some guild1])). i \<noteq> d @ ''.json''"
    unfolding fetched_guild1 by (rule guild1_snapshots_kept)
  note t = second_pass_issues_no_definition_upsert[where listing' = listing2, OF p adapter1_loaded remote1_fields sx sj hx hj]
  have t2: "\<not> (\<exists>i obj. ExtendObject i obj
          \<in> set (drop (length (store_calls (snd pass1))) (store_calls (snd pass2))))"
    using t unfolding pass2_def by blast
  have t3: "set (leaf_writes env0 ''9'' [guild1])
        \<subseteq> set (drop (length (store_calls (snd pass1))) (store_calls (snd pass2)))"
    using t pass2_returns unfolding pass2_def fetched_guild1 by blast
  show ?thesis
    using pass1_returns adapter1_loaded sx sj t2 t3 unfolding fetched_guild1 by blast
qed

text \<open>
  For the concrete server both passes return, and the second pass writes the tag of a
  member and the member count of a channel again, although nothing has changed: the
  second pass does reach the store with \<open>setState\<close> calls.
\<close>

theorem second_pass_rewrites_leaf_values_counterexample:
  "fst pass1 = Returns () \<and> fst pass2 = Returns ()
   \<and> SetState ''servers.1.members.5.tag'' (JStr ''alice#0005'') True
        \<in> set (drop (length (store_calls (snd pass1))) (store_calls (snd pass2)))
   \<and> SetState ''servers.1.channels.2.channels.3.memberCount'' (JNum 1) True
        \<in> set (drop (length (store_calls (snd pass1))) (store_calls (snd pass2)))"
proof -
  have "set (leaf_writes env0 ''9'' (fetched [Some guild1]))
          \<subseteq> set (drop (length (store_calls (snd pass1))) (store_calls (snd pass2)))"
    using pass_issues_leaf_writes[where e = env0 and listing = listing2, OF pass1_loaded remote1_fields] pass2_returns
    unfolding pass2_def by simp
  then show ?thesis
    using pass1_returns pass2_returns guild1_tag_leaf guild1_memberCount_leaf
    unfolding fetched_guild1 by blast
qed

end
